theory Spec2Isabelle
  imports Complex_Main
begin

section \<open>Mercury: playlist asset generation (src/main.py)\<close>

text \<open>
  A shallow embedding of the three generators of \<^verbatim>\<open>src/main.py\<close>:
  \<^verbatim>\<open>generate_histogram\<close>, \<^verbatim>\<open>generate_cards\<close> and \<^verbatim>\<open>generate_box\<close>.
  Exceptions are values of the type \<open>error\<close>; the file system and the log are an explicit
  state that every generator takes and returns; the images built with PIL and the chart
  built with matplotlib are kept as the list of drawing calls the source makes, in order.
  A Python \<open>str\<close> is a \<open>string\<close> holding its UTF-8 bytes, whose bytewise lexicographic
  order is the order of the code points that Python compares.
\<close>

subsection \<open>Exceptions\<close>

datatype error =
    ValueError
  | IndexError
  | KeyError string
  | FileExistsError
  | FileNotFoundError
  | NotADirectoryError
  | IsADirectoryError

subsection \<open>Python builtins used by the generators\<close>

text \<open>\<^verbatim>\<open>str < str\<close>: lexicographic on code points; a proper prefix is smaller.\<close>

fun str_lt :: "string \<Rightarrow> string \<Rightarrow> bool" where
  "str_lt [] [] = False"
| "str_lt [] (y # ys) = True"
| "str_lt (x # xs) [] = False"
| "str_lt (x # xs) (y # ys) =
     (if (of_char x :: nat) < of_char y then True
      else if (of_char y :: nat) < of_char x then False
      else str_lt xs ys)"

text \<open>
  \<^verbatim>\<open>min(xs)\<close> and \<^verbatim>\<open>max(xs)\<close> on a list of strings: ValueError on the empty list,
  otherwise the first smallest (largest) element; the running value is replaced only by
  a strictly smaller (larger) item.
\<close>

fun py_min :: "string list \<Rightarrow> error + string" where
  "py_min [] = Inl ValueError"
| "py_min (x # xs) = Inr (fold (\<lambda>y m. if str_lt y m then y else m) xs x)"

fun py_max :: "string list \<Rightarrow> error + string" where
  "py_max [] = Inl ValueError"
| "py_max (x # xs) = Inr (fold (\<lambda>y m. if str_lt m y then y else m) xs x)"

text \<open>
  \<^verbatim>\<open>int(s)\<close> for a string, base 10: surrounding whitespace is stripped, one sign is
  allowed, then decimal digits with single underscores between digits; anything else
  is ValueError. CPython also refuses more than 4300 digits (the default of
  \<^verbatim>\<open>sys.int_max_str_digits\<close>). The model covers ASCII: a string with a non-ASCII
  digit or space is refused here.
\<close>

definition is_space :: "char \<Rightarrow> bool" where
  "is_space c = ((of_char c :: nat) \<in> {9, 10, 11, 12, 13, 28, 29, 30, 31, 32})"

definition is_digit :: "char \<Rightarrow> bool" where
  "is_digit c = (48 \<le> (of_char c :: nat) \<and> (of_char c :: nat) \<le> 57)"

definition digit_val :: "char \<Rightarrow> int" where
  "digit_val c = int (of_char c) - 48"

definition strip :: "string \<Rightarrow> string" where
  "strip s = rev (dropWhile is_space (rev (dropWhile is_space s)))"

fun digits_acc :: "int \<Rightarrow> string \<Rightarrow> error + int" where
  "digits_acc n [] = Inr n"
| "digits_acc n (c # cs) =
     (if is_digit c then digits_acc (10 * n + digit_val c) cs
      else if c = CHR ''_'' then
        (case cs of
           [] \<Rightarrow> Inl ValueError
         | d # ds \<Rightarrow> if is_digit d then digits_acc (10 * n + digit_val d) ds
                     else Inl ValueError)
      else Inl ValueError)"

definition int_max_str_digits :: nat where
  "int_max_str_digits = 4300"

definition py_int_unsigned :: "string \<Rightarrow> error + int" where
  "py_int_unsigned s =
     (case s of
        [] \<Rightarrow> Inl ValueError
      | c # cs \<Rightarrow>
          if \<not> is_digit c then Inl ValueError
          else if int_max_str_digits < length (filter is_digit s) then Inl ValueError
          else digits_acc (digit_val c) cs)"

definition py_int :: "string \<Rightarrow> error + int" where
  "py_int s =
     (case strip s of
        [] \<Rightarrow> Inl ValueError
      | c # cs \<Rightarrow>
          if c = CHR ''-'' then map_sum id uminus (py_int_unsigned cs)
          else if c = CHR ''+'' then py_int_unsigned cs
          else py_int_unsigned (c # cs))"

text \<open>
  \<^verbatim>\<open>xs[i] += 1\<close> on a list: a negative index counts from the end; an index outside
  \<open>-len(xs) .. len(xs) - 1\<close> is IndexError.
\<close>

definition list_incr :: "int list \<Rightarrow> int \<Rightarrow> error + int list" where
  "list_incr xs i =
     (let n = int (length xs); j = (if i < 0 then i + n else i)
      in if 0 \<le> j \<and> j < n then Inr (xs[nat j := xs ! nat j + 1]) else Inl IndexError)"

text \<open>
  \<^verbatim>\<open>range(start, stop, step)\<close> as the list it iterates over: ValueError for step 0;
  the number of items is computed as CPython does, item \<open>k\<close> is \<open>start + k * step\<close>.
\<close>

definition range_len :: "int \<Rightarrow> int \<Rightarrow> int \<Rightarrow> nat" where
  "range_len lo hi step =
     (if 0 < step then (if lo < hi then nat ((hi - lo - 1) div step + 1) else 0)
      else (if hi < lo then nat ((lo - hi - 1) div (- step) + 1) else 0))"

definition py_range :: "int \<Rightarrow> int \<Rightarrow> int \<Rightarrow> error + int list" where
  "py_range lo hi step =
     (if step = 0 then Inl ValueError
      else Inr (map (\<lambda>k. lo + int k * step) [0..<range_len lo hi step]))"

text \<open>\<^verbatim>\<open>range(n)\<close>: \<open>0, ..., n - 1\<close>, empty when \<open>n \<le> 0\<close>.\<close>

definition py_range1 :: "int \<Rightarrow> int list" where
  "py_range1 n = map int [0..<nat n]"

subsection \<open>Data model\<close>

text \<open>
  A track is the dict built by \<^verbatim>\<open>map_spotify_track\<close> (keys \<^verbatim>\<open>name\<close>, \<^verbatim>\<open>url\<close>,
  \<^verbatim>\<open>year\<close>, \<^verbatim>\<open>artists\<close>) or read back from the playlist JSON; reading a key that is
  absent raises KeyError. The playlist is the dict with the keys \<^verbatim>\<open>name\<close> and
  \<^verbatim>\<open>tracks\<close>.
\<close>

type_synonym track = "string \<rightharpoonup> string"

record playlist =
  name :: string
  tracks :: "track list"

definition getitem :: "track \<Rightarrow> string \<Rightarrow> error + string" where
  "getitem t k = (case t k of None \<Rightarrow> Inl (KeyError k) | Some v \<Rightarrow> Inr v)"

text \<open>\<^verbatim>\<open>list(map(lambda t: t[k], ts))\<close>: the first missing key raises.\<close>

fun getitems :: "string \<Rightarrow> track list \<Rightarrow> error + string list" where
  "getitems k [] = Inr []"
| "getitems k (t # ts) =
     (case getitem t k of
        Inl e \<Rightarrow> Inl e
      | Inr v \<Rightarrow> (case getitems k ts of Inl e \<Rightarrow> Inl e | Inr vs \<Rightarrow> Inr (v # vs)))"

subsection \<open>Rendering constants (lines 21-31)\<close>

definition CARD_W :: int where "CARD_W = 1000"
definition CARD_WH :: int where "CARD_WH = CARD_W div 2"
definition CARD_W6 :: int where "CARD_W6 = CARD_W div 6"

datatype font = FONT | LARGE_FONT

definition FONT_SIZE :: int where "FONT_SIZE = 32"
definition LARGE_FONT_SIZE :: int where "LARGE_FONT_SIZE = 112"

definition BG :: string where "BG = ''#E81828''"
definition FG :: string where "FG = ''#fff''"

subsection \<open>Images, charts and the file system\<close>

text \<open>
  An image is its size, its fill colour and the drawing calls made on it, oldest first.
  The code is \<^verbatim>\<open>qrcode.make(data).resize((w, h))\<close>, kept symbolically.
\<close>

record qr =
  qr_data :: string
  qr_w :: int
  qr_h :: int

datatype draw_op =
    Paste qr int int
  | Text int int string string font string string

record image =
  img_w :: int
  img_h :: int
  img_bg :: string
  img_ops :: "draw_op list"

record chart =
  bar_labels :: "int list"
  bar_counts :: "int list"
  title :: string

datatype content = Png image | Figure chart

datatype node = Dir | File content

type_synonym path = "string list"

type_synonym filesystem = "path \<rightharpoonup> node"

record world =
  fs :: filesystem
  log :: "string list"

text \<open>The empty path is the directory the relative paths start from; it always exists.\<close>

definition lookup :: "filesystem \<Rightarrow> path \<Rightarrow> node option" where
  "lookup f p = (if p = [] then Some Dir else f p)"

text \<open>\<^verbatim>\<open>os.mkdir\<close>: the path must be new and its parent an existing directory.\<close>

definition mkdir :: "path \<Rightarrow> filesystem \<Rightarrow> error + filesystem" where
  "mkdir p f =
     (if lookup f p \<noteq> None then Inl FileExistsError
      else (case lookup f (butlast p) of
              None \<Rightarrow> Inl FileNotFoundError
            | Some (File c) \<Rightarrow> Inl NotADirectoryError
            | Some Dir \<Rightarrow> Inr (f(p \<mapsto> Dir))))"

text \<open>
  \<^verbatim>\<open>os.makedirs(p)\<close> with \<^verbatim>\<open>exist_ok=False\<close>: a missing parent is created first
  (a FileExistsError from that recursive call is ignored), then \<^verbatim>\<open>mkdir(p)\<close>.
\<close>

function makedirs :: "path \<Rightarrow> filesystem \<Rightarrow> error + filesystem" where
  "makedirs p f =
     (if p \<noteq> [] \<and> butlast p \<noteq> [] \<and> lookup f (butlast p) = None then
        (case makedirs (butlast p) f of
           Inl FileExistsError \<Rightarrow> mkdir p f
         | Inl e \<Rightarrow> Inl e
         | Inr f' \<Rightarrow> mkdir p f')
      else mkdir p f)"
  by pat_completeness auto
termination
  by (relation "measure (\<lambda>(p, f). length p)") auto

text \<open>
  Writing a file (\<^verbatim>\<open>Image.save\<close>, \<^verbatim>\<open>plt.savefig\<close>): the parent must be an existing
  directory and the path itself no directory; an existing file is replaced.
\<close>

definition write_file :: "path \<Rightarrow> content \<Rightarrow> filesystem \<Rightarrow> error + filesystem" where
  "write_file p c f =
     (case lookup f (butlast p) of
        None \<Rightarrow> Inl FileNotFoundError
      | Some (File c') \<Rightarrow> Inl NotADirectoryError
      | Some Dir \<Rightarrow>
          (case lookup f p of
             Some Dir \<Rightarrow> Inl IsADirectoryError
           | _ \<Rightarrow> Inr (f(p \<mapsto> File c))))"

subsection \<open>generate_histogram (lines 86-100)\<close>

text \<open>The loop of lines 92-93.\<close>

fun count_loop :: "int \<Rightarrow> string list \<Rightarrow> int list \<Rightarrow> error + int list" where
  "count_loop a [] counts = Inr counts"
| "count_loop a (year # ys) counts =
     (case py_int year of
        Inl e \<Rightarrow> Inl e
      | Inr v \<Rightarrow>
          (case list_incr counts (v - a) of
             Inl e \<Rightarrow> Inl e
           | Inr counts' \<Rightarrow> count_loop a ys counts'))"

text \<open>Lines 88-93: from the list of year strings to the labels and the counts.\<close>

definition histogram_bins :: "string list \<Rightarrow> error + (int list \<times> int list)" where
  "histogram_bins years =
     (case py_min years of
        Inl e \<Rightarrow> Inl e
      | Inr lo \<Rightarrow>
     (case py_int lo of
        Inl e \<Rightarrow> Inl e
      | Inr a \<Rightarrow>
     (case py_max years of
        Inl e \<Rightarrow> Inl e
      | Inr hi \<Rightarrow>
     (case py_int hi of
        Inl e \<Rightarrow> Inl e
      | Inr b \<Rightarrow>
     (let counts = map (\<lambda>_. 0) (py_range1 (b - a + 1));
          labels = map (\<lambda>i. i + a) (py_range1 (b - a + 1))
      in case count_loop a years counts of
           Inl e \<Rightarrow> Inl e
         | Inr counts' \<Rightarrow> Inr (labels, counts'))))))"

definition generate_histogram :: "path \<Rightarrow> playlist \<Rightarrow> world \<Rightarrow> (error + unit) \<times> world" where
  "generate_histogram output_directory pl w =
     (case getitems ''year'' (tracks pl) of
        Inl e \<Rightarrow> (Inl e, w)
      | Inr years \<Rightarrow>
     (case histogram_bins years of
        Inl e \<Rightarrow> (Inl e, w)
      | Inr (labels, counts) \<Rightarrow>
     (let fig = \<lparr>bar_labels = labels, bar_counts = counts, title = name pl\<rparr>
      in case write_file (output_directory @ [''hist.png'']) (Figure fig) (fs w) of
           Inl e \<Rightarrow> (Inl e, w)
         | Inr f \<Rightarrow> (Inr (), w\<lparr>fs := f\<rparr>))))"

subsection \<open>generate_cards (lines 103-150)\<close>

text \<open>
  Font metrics come from the font file loaded by PIL, which is no part of the repository:
  they are a parameter. \<open>textbbox m font s\<close> is \<^verbatim>\<open>draw.textbbox((0,0), s, font=font)\<close>,
  the tuple (left, top, right, bottom); \<open>textlength m font s\<close> is
  \<^verbatim>\<open>draw.textlength(s, font=font)\<close>, a float.
\<close>

record pil =
  textbbox :: "font \<Rightarrow> string \<Rightarrow> rat \<times> rat \<times> rat \<times> rat"
  textlength :: "font \<Rightarrow> string \<Rightarrow> rat"

text \<open>\<^verbatim>\<open>str(n)\<close> for \<open>n \<ge> 0\<close> and the format \<^verbatim>\<open>{i:05d}\<close>: zeros on the left up to width 5.\<close>

function str_nat :: "nat \<Rightarrow> string" where
  "str_nat n =
     (if n < 10 then [''0123456789'' ! n]
      else str_nat (n div 10) @ [''0123456789'' ! (n mod 10)])"
  by pat_completeness auto
termination
  by (relation "measure (\<lambda>n. n)") auto

definition fmt_05d :: "nat \<Rightarrow> string" where
  "fmt_05d i = replicate (5 - length (str_nat i)) (CHR ''0'') @ str_nat i"

definition back_name :: "nat \<Rightarrow> string" where
  "back_name i = ''back_'' @ fmt_05d i @ ''.png''"

definition front_name :: "nat \<Rightarrow> string" where
  "front_name i = ''front_'' @ fmt_05d i @ ''.png''"

definition QR_W :: int where "QR_W = 700"

definition TEXT_MARGIN :: int where "TEXT_MARGIN = 100"

definition image_new :: "int \<Rightarrow> int \<Rightarrow> string \<Rightarrow> image" where
  "image_new w h colour = \<lparr>img_w = w, img_h = h, img_bg = colour, img_ops = []\<rparr>"

definition draw :: "draw_op \<Rightarrow> image \<Rightarrow> image" where
  "draw d im = im\<lparr>img_ops := img_ops im @ [d]\<rparr>"

text \<open>Lines 111-114: the back image of one track url.\<close>

definition back_image :: "string \<Rightarrow> image" where
  "back_image url =
     (let code = \<lparr>qr_data = url, qr_w = QR_W, qr_h = QR_W\<rparr>;
          back = image_new CARD_W CARD_W BG;
          a = CARD_WH - QR_W div 2
      in draw (Paste code a a) back)"

text \<open>The loop of lines 110-115 over \<^verbatim>\<open>enumerate(playlist["tracks"])\<close>.\<close>

fun backs_loop :: "path \<Rightarrow> (nat \<times> track) list \<Rightarrow> filesystem \<Rightarrow> (error + unit) \<times> filesystem" where
  "backs_loop back_dir [] f = (Inr (), f)"
| "backs_loop back_dir ((i, t) # rest) f =
     (case getitem t ''url'' of
        Inl e \<Rightarrow> (Inl e, f)
      | Inr url \<Rightarrow>
          (case write_file (back_dir @ [back_name i]) (Png (back_image url)) f of
             Inl e \<Rightarrow> (Inl e, f)
           | Inr f' \<Rightarrow> backs_loop back_dir rest f'))"

text \<open>Lines 128-132: the front image; \<open>Text x y s fill font anchor align\<close>.\<close>

definition front_image :: "string \<Rightarrow> string \<Rightarrow> string \<Rightarrow> image" where
  "front_image year artists nm =
     draw (Text CARD_WH (5 * CARD_W6) nm FG FONT ''mm'' ''center'')
       (draw (Text CARD_WH CARD_W6 artists FG FONT ''mm'' ''center'')
          (draw (Text CARD_WH CARD_WH year FG LARGE_FONT ''mm'' ''center'')
             (image_new CARD_W CARD_W BG)))"

text \<open>
  Lines 134-142: one check, \<^verbatim>\<open>bbox[2]-bbox[0] >= CARD_W - TEXT_MARGIN\<close>, and the
  message passed to \<^verbatim>\<open>logger.info\<close> (the empty list when there is none).
\<close>

definition bbox_width :: "pil \<Rightarrow> font \<Rightarrow> string \<Rightarrow> rat" where
  "bbox_width m fnt s = (case textbbox m fnt s of (x0, y0, x1, y1) \<Rightarrow> x1 - x0)"

definition too_long_msg :: "string \<Rightarrow> string \<Rightarrow> string" where
  "too_long_msg field v = field @ '' '' @ [CHR 0x22] @ v @ [CHR 0x22] @ '' too long''"

definition overflow_check :: "pil \<Rightarrow> font \<Rightarrow> string \<Rightarrow> string \<Rightarrow> string list" where
  "overflow_check m fnt field v =
     (if of_int (CARD_W - TEXT_MARGIN) \<le> bbox_width m fnt v then [too_long_msg field v] else [])"

definition front_warnings :: "pil \<Rightarrow> string \<Rightarrow> string \<Rightarrow> string \<Rightarrow> string list" where
  "front_warnings m year artists nm =
     overflow_check m LARGE_FONT ''year'' year
     @ overflow_check m FONT ''artists'' artists
     @ overflow_check m FONT ''name'' nm"

text \<open>The loop of lines 123-149.\<close>

fun fronts_loop :: "pil \<Rightarrow> path \<Rightarrow> (nat \<times> track) list \<Rightarrow> world \<Rightarrow> (error + unit) \<times> world" where
  "fronts_loop m front_dir [] w = (Inr (), w)"
| "fronts_loop m front_dir ((i, t) # rest) w =
     (case getitem t ''year'' of
        Inl e \<Rightarrow> (Inl e, w)
      | Inr year \<Rightarrow>
     (case getitem t ''artists'' of
        Inl e \<Rightarrow> (Inl e, w)
      | Inr artists \<Rightarrow>
     (case getitem t ''name'' of
        Inl e \<Rightarrow> (Inl e, w)
      | Inr nm \<Rightarrow>
     (let front = front_image year artists nm;
          w1 = w\<lparr>log := log w @ front_warnings m year artists nm\<rparr>
      in case write_file (front_dir @ [front_name i]) (Png front) (fs w1) of
           Inl e \<Rightarrow> (Inl e, w1)
         | Inr f' \<Rightarrow> fronts_loop m front_dir rest (w1\<lparr>fs := f'\<rparr>)))))"

definition generate_cards :: "pil \<Rightarrow> path \<Rightarrow> playlist \<Rightarrow> world \<Rightarrow> (error + unit) \<times> world" where
  "generate_cards m output_directory pl w =
     (let back_dir = output_directory @ [''backs'']
      in case makedirs back_dir (fs w) of
           Inl e \<Rightarrow> (Inl e, w)
         | Inr f1 \<Rightarrow>
     (case backs_loop back_dir (enumerate 0 (tracks pl)) f1 of
        (Inl e, f2) \<Rightarrow> (Inl e, w\<lparr>fs := f2\<rparr>)
      | (Inr u, f2) \<Rightarrow>
     (let front_dir = output_directory @ [''fronts'']
      in case makedirs front_dir f2 of
           Inl e \<Rightarrow> (Inl e, w\<lparr>fs := f2\<rparr>)
         | Inr f3 \<Rightarrow> fronts_loop m front_dir (enumerate 0 (tracks pl)) (w\<lparr>fs := f3\<rparr>))))"

subsection \<open>generate_box (lines 153-167)\<close>

text \<open>\<^verbatim>\<open>int(x)\<close> of a float truncates towards zero; \<^verbatim>\<open>math.ceil\<close> is the ceiling.\<close>

definition int_of_float :: "rat \<Rightarrow> int" where
  "int_of_float x = (if 0 \<le> x then \<lfloor>x\<rfloor> else \<lceil>x\<rceil>)"

definition box_step :: int where
  "box_step = int_of_float (of_int FONT_SIZE * (3 / 2))"

definition box_text :: "string \<Rightarrow> int \<Rightarrow> int \<Rightarrow> draw_op" where
  "box_text nm x y = Text (x + y) y nm FG FONT ''la'' ''left''"

text \<open>
  The loops of lines 162-164; the inner \<^verbatim>\<open>range\<close> is built anew in every row, with the
  step \<open>length + z\<close>. \<^verbatim>\<open>draw.text\<close> without an anchor uses PIL's default, \<^verbatim>\<open>la\<close>.
\<close>

fun box_rows :: "string \<Rightarrow> int \<Rightarrow> int list \<Rightarrow> image \<Rightarrow> error + image" where
  "box_rows nm xstep [] box = Inr box"
| "box_rows nm xstep (y # ys) box =
     (case py_range (- CARD_W) (CARD_W * 2) xstep of
        Inl e \<Rightarrow> Inl e
      | Inr xs \<Rightarrow> box_rows nm xstep ys (fold (\<lambda>x. draw (box_text nm x y)) xs box))"

definition box_image :: "pil \<Rightarrow> string \<Rightarrow> error + image" where
  "box_image m nm =
     (let box = image_new CARD_W CARD_W BG;
          length = \<lceil>textlength m FONT nm\<rceil>;
          z = box_step
      in case py_range (- CARD_W) (CARD_W * 2) z of
           Inl e \<Rightarrow> Inl e
         | Inr ys \<Rightarrow> box_rows nm (length + z) ys box)"

definition generate_box :: "pil \<Rightarrow> path \<Rightarrow> playlist \<Rightarrow> world \<Rightarrow> (error + unit) \<times> world" where
  "generate_box m output_directory pl w =
     (case box_image m (name pl) of
        Inl e \<Rightarrow> (Inl e, w)
      | Inr box \<Rightarrow>
          (case write_file (output_directory @ [''box.png'']) (Png box) (fs w) of
             Inl e \<Rightarrow> (Inl e, w)
           | Inr f \<Rightarrow> (Inr (), w\<lparr>fs := f\<rparr>)))"

subsection \<open>Notions used in the statements\<close>

text \<open>The number that a string of decimal digits denotes.\<close>

definition dec :: "string \<Rightarrow> nat" where
  "dec s = foldl (\<lambda>a c. 10 * a + (of_char c - 48)) 0 s"

text \<open>
  A well-formed file system: whatever exists lies in an existing directory.
\<close>

definition wf_fs :: "filesystem \<Rightarrow> bool" where
  "wf_fs f = (\<forall>p. f p \<noteq> None \<longrightarrow> lookup f (butlast p) = Some Dir)"

text \<open>
  Year strings as the data model has them: decimal digits only, all of one length \<open>n\<close>
  (four, for the years cut from a release date).
\<close>

definition year_strings :: "nat \<Rightarrow> string list \<Rightarrow> bool" where
  "year_strings n years = (\<forall>y\<in>set years. length y = n \<and> (\<forall>c\<in>set y. is_digit c))"

section \<open>Auxiliary facts\<close>

lemmas consts_defs = CARD_W_def CARD_WH_def CARD_W6_def QR_W_def TEXT_MARGIN_def FONT_SIZE_def

lemma too_long_msg_field:
  "too_long_msg ''year'' a \<noteq> too_long_msg ''artists'' b"
  "too_long_msg ''year'' a \<noteq> too_long_msg ''name'' b"
  "too_long_msg ''artists'' a \<noteq> too_long_msg ''name'' b"
  "too_long_msg ''artists'' a \<noteq> too_long_msg ''year'' b"
  "too_long_msg ''name'' a \<noteq> too_long_msg ''year'' b"
  "too_long_msg ''name'' a \<noteq> too_long_msg ''artists'' b"
  by (simp_all add: too_long_msg_def)

lemma le_div_step:
  assumes "0 < (s::int)"
  shows "k \<le> a div s \<longleftrightarrow> k * s \<le> a"
proof
  assume "k \<le> a div s"
  then have "k * s \<le> (a div s) * s" using assms by (simp add: mult_right_mono)
  also have "\<dots> = a - a mod s" by (simp add: minus_mod_eq_div_mult)
  also have "\<dots> \<le> a" using assms by simp
  finally show "k * s \<le> a" .
next
  assume "k * s \<le> a"
  then have "(k * s) div s \<le> a div s" using assms by (rule zdiv_mono1)
  then show "k \<le> a div s" using assms by simp
qed

lemma range_len_less:
  assumes "0 < step"
  shows "k < range_len lo hi step \<longleftrightarrow> lo + int k * step < hi"
proof (cases "lo < hi")
  case True
  have "k < range_len lo hi step \<longleftrightarrow> int k \<le> (hi - lo - 1) div step"
    using True assms by (simp add: range_len_def) linarith
  also have "\<dots> \<longleftrightarrow> int k * step \<le> hi - lo - 1"
    using assms by (rule le_div_step)
  finally show ?thesis by linarith
next
  case False
  have "0 \<le> int k * step" using assms by simp
  with False have "\<not> lo + int k * step < hi" by linarith
  moreover have "range_len lo hi step = 0" using False assms by (simp add: range_len_def)
  ultimately show ?thesis by simp
qed

lemma set_range_pos:
  assumes "0 < step"
  shows "set (map (\<lambda>k. lo + int k * step) [0..<range_len lo hi step])
         = {y. lo \<le> y \<and> y < hi \<and> (y - lo) mod step = 0}" (is "?L = ?R")
proof (rule set_eqI)
  fix y
  show "y \<in> ?L \<longleftrightarrow> y \<in> ?R"
  proof
    assume "y \<in> ?L"
    then obtain k where k: "k < range_len lo hi step" "y = lo + int k * step" by auto
    then have "y < hi" using range_len_less[OF assms] by simp
    moreover have "lo \<le> y" using k assms by simp
    ultimately show "y \<in> ?R" using k by simp
  next
    assume "y \<in> ?R"
    then have y: "lo \<le> y" "y < hi" "(y - lo) mod step = 0" by auto
    define k where "k = nat ((y - lo) div step)"
    have "0 \<le> (y - lo) div step" using y assms by (simp add: pos_imp_zdiv_nonneg_iff)
    then have "int k = (y - lo) div step" by (simp add: k_def)
    then have "y - lo = int k * step" using y(3) by (simp add: mod_0_imp_dvd)
    then have yk: "y = lo + int k * step" by simp
    moreover have "k < range_len lo hi step"
      using range_len_less[OF assms, of k lo hi] yk y by simp
    ultimately show "y \<in> ?L" by auto
  qed
qed

lemma sorted_range_pos:
  assumes "0 < step"
  shows "sorted (map (\<lambda>k. lo + int k * step) [0..<n]) \<and> distinct (map (\<lambda>k. lo + int k * step) [0..<n])"
proof (induction n)
  case 0
  then show ?case by simp
next
  case (Suc n)
  have "\<And>k. k < n \<Longrightarrow> int k * step < int n * step" using assms by simp
  then have "\<And>k. k < n \<Longrightarrow> lo + int k * step < lo + int n * step" by simp
  then show ?case using Suc by (auto simp: sorted_append less_imp_le)
qed

lemma py_range_pos:
  assumes "0 < step"
  shows "py_range lo hi step = Inr (filter (\<lambda>y. (y - lo) mod step = 0) [lo..hi - 1])"
proof -
  let ?l = "map (\<lambda>k. lo + int k * step) [0..<range_len lo hi step]"
  let ?r = "filter (\<lambda>y. (y - lo) mod step = 0) [lo..hi - 1]"
  have "set ?l = set ?r" using set_range_pos[OF assms] by auto
  moreover have "sorted ?l" "distinct ?l" using sorted_range_pos[OF assms] by auto
  moreover have "sorted ?r" "distinct ?r" by (simp_all add: sorted_wrt_filter)
  ultimately have "?l = ?r" by (metis sorted_distinct_set_unique)
  then show ?thesis using assms by (simp add: py_range_def)
qed


lemma fold_draw: "fold (\<lambda>x. draw (g x)) xs im = im\<lparr>img_ops := img_ops im @ map g xs\<rparr>"
  by (induction xs arbitrary: im) (simp_all add: draw_def)

lemma box_rows_ops:
  "py_range (- CARD_W) (CARD_W * 2) xstep = Inr xs \<Longrightarrow>
   box_rows nm xstep ys im =
     Inr (im\<lparr>img_ops := img_ops im @ concat (map (\<lambda>y. map (\<lambda>x. box_text nm x y) xs) ys)\<rparr>)"
  by (induction ys arbitrary: im) (simp_all add: fold_draw)

lemma box_step_48: "box_step = 48"
  by (simp add: box_step_def int_of_float_def FONT_SIZE_def)

lemma box_image_ops:
  assumes "0 \<le> textlength m FONT nm"
  shows "box_image m nm =
     Inr \<lparr>img_w = CARD_W, img_h = CARD_W, img_bg = BG,
          img_ops = concat (map (\<lambda>y. map (\<lambda>x. Text (x + y) y nm FG FONT ''la'' ''left'')
                      (filter (\<lambda>x. (x + CARD_W) mod (\<lceil>textlength m FONT nm\<rceil> + 48) = 0)
                         [- CARD_W..2 * CARD_W - 1]))
                    (filter (\<lambda>y. (y + CARD_W) mod 48 = 0) [- CARD_W..2 * CARD_W - 1]))\<rparr>"
proof -
  have "0 \<le> \<lceil>textlength m FONT nm\<rceil>" using assms by simp
  then have pos: "0 < \<lceil>textlength m FONT nm\<rceil> + 48" by linarith
  have xs: "py_range (- CARD_W) (CARD_W * 2) (\<lceil>textlength m FONT nm\<rceil> + 48)
         = Inr (filter (\<lambda>x. (x + CARD_W) mod (\<lceil>textlength m FONT nm\<rceil> + 48) = 0)
                  [- CARD_W..2 * CARD_W - 1])"
    using py_range_pos[OF pos, of "- CARD_W" "CARD_W * 2"] by (simp add: mult.commute)
  have ys: "py_range (- CARD_W) (CARD_W * 2) 48
         = Inr (filter (\<lambda>y. (y + CARD_W) mod 48 = 0) [- CARD_W..2 * CARD_W - 1])"
    using py_range_pos[of 48 "- CARD_W" "CARD_W * 2"] by (simp add: mult.commute)
  show ?thesis
    by (simp add: box_image_def box_step_48 ys box_rows_ops[OF xs] image_new_def box_text_def)
qed

lemma generate_box_succeeds:
  assumes "0 \<le> textlength m FONT (name pl)"
    and "lookup (fs w) output_directory = Some Dir"
    and "lookup (fs w) (output_directory @ [''box.png'']) \<noteq> Some Dir"
  shows "fst (generate_box m output_directory pl w) = Inr ()"
proof -
  have w: "write_file (output_directory @ [''box.png'']) c (fs w)
             = Inr ((fs w)(output_directory @ [''box.png''] \<mapsto> File c))" for c
    using assms(2,3) by (simp add: write_file_def split: option.splits node.splits)
  show ?thesis
    by (simp add: generate_box_def box_image_ops[OF assms(1)] w)
qed

declare str_nat.simps [simp del]

lemma str_nat_digit: "n < 10 \<Longrightarrow> str_nat n = [''0123456789'' ! n]"
  by (subst str_nat.simps) simp

lemma str_nat_rec: "10 \<le> n \<Longrightarrow> str_nat n = str_nat (n div 10) @ [''0123456789'' ! (n mod 10)]"
  by (subst str_nat.simps) simp

lemma digit_char: "k < 10 \<Longrightarrow> (of_char (''0123456789'' ! k) :: nat) = 48 + k"
proof -
  assume "k < 10"
  then have "k = 0 \<or> k = 1 \<or> k = 2 \<or> k = 3 \<or> k = 4 \<or> k = 5 \<or> k = 6 \<or> k = 7 \<or> k = 8 \<or> k = 9"
    by presburger
  then show ?thesis by (elim disjE) simp_all
qed

lemma dec_snoc: "dec (s @ [c]) = 10 * dec s + (of_char c - 48)"
  by (simp add: dec_def)

lemma dec_str_nat: "dec (str_nat n) = n"
proof (induction n rule: str_nat.induct)
  case (1 n)
  show ?case
  proof (cases "n < 10")
    case True
    then show ?thesis by (simp add: str_nat_digit dec_def digit_char)
  next
    case False
    then have "dec (str_nat (n div 10)) = n div 10" using 1 by simp
    then show ?thesis using False by (simp add: str_nat_rec dec_snoc digit_char)
  qed
qed

lemma dec_zeros: "foldl (\<lambda>a c. 10 * a + (of_char c - 48)) 0 (replicate k (CHR ''0'')) = (0::nat)"
  by (induction k) simp_all

lemma dec_fmt_05d: "dec (fmt_05d n) = n"
  using dec_str_nat[of n] by (simp add: fmt_05d_def dec_def dec_zeros)

lemma fmt_05d_inj: "fmt_05d i = fmt_05d j \<longleftrightarrow> i = j"
  by (metis dec_fmt_05d)

lemma back_name_inj: "back_name i = back_name j \<longleftrightarrow> i = j"
  by (simp add: back_name_def fmt_05d_inj)

lemma front_name_inj: "front_name i = front_name j \<longleftrightarrow> i = j"
  by (simp add: front_name_def fmt_05d_inj)

lemma length_str_nat: "n < 10 ^ Suc k \<Longrightarrow> length (str_nat n) \<le> Suc k"
proof (induction k arbitrary: n)
  case 0
  then show ?case by (simp add: str_nat_digit)
next
  case (Suc k)
  show ?case
  proof (cases "n < 10")
    case True
    then show ?thesis by (simp add: str_nat_digit)
  next
    case False
    have "n div 10 < 10 ^ Suc k" using Suc.prems by (simp add: less_mult_imp_div_less)
    then have "length (str_nat (n div 10)) \<le> Suc k" by (rule Suc.IH)
    then show ?thesis using False by (simp add: str_nat_rec)
  qed
qed

lemma length_fmt_05d: "i < 100000 \<Longrightarrow> length (fmt_05d i) = 5"
proof -
  assume "i < 100000"
  then have "i < 10 ^ Suc 4" by simp
  then have "length (str_nat i) \<le> Suc 4" by (rule length_str_nat)
  then show ?thesis by (simp add: fmt_05d_def)
qed

lemma name_zero: "back_name 0 = ''back_00000.png''" "front_name 0 = ''front_00000.png''"
  unfolding back_name_def front_name_def fmt_05d_def
  by (simp_all add: str_nat_digit) (simp_all add: eval_nat_numeral)

declare makedirs.simps [simp del]

lemma write_file_ok:
  "lookup f (butlast p) = Some Dir \<Longrightarrow> lookup f p \<noteq> Some Dir \<Longrightarrow>
   write_file p c f = Inr (f(p \<mapsto> File c))"
  by (simp add: write_file_def split: option.splits node.splits)

lemma write_file_frame:
  "write_file p c f = Inr f' \<Longrightarrow> f' = f(p \<mapsto> File c)"
  by (auto simp: write_file_def split: option.splits node.splits)

lemma makedirs_child:
  "lookup f d = Some Dir \<Longrightarrow> makedirs (d @ [x]) f = mkdir (d @ [x]) f"
  by (subst makedirs.simps) simp

lemma mkdir_exists: "lookup f p \<noteq> None \<Longrightarrow> mkdir p f = Inl FileExistsError"
  by (simp add: mkdir_def)

lemma mkdir_fresh:
  "lookup f d = Some Dir \<Longrightarrow> f (d @ [x]) = None \<Longrightarrow> mkdir (d @ [x]) f = Inr (f(d @ [x] \<mapsto> Dir))"
  by (simp add: mkdir_def lookup_def)

lemma backs_loop_frame:
  "backs_loop d its f = (r, f') \<Longrightarrow> f' p \<noteq> f p \<Longrightarrow> \<exists>x. p = d @ [x]"
proof (induction its arbitrary: f)
  case Nil
  then show ?case by simp
next
  case (Cons it its)
  obtain i t where it: "it = (i, t)" by (cases it)
  show ?case
  proof (cases "getitem t ''url''")
    case (Inl e)
    then show ?thesis using Cons.prems it by simp
  next
    case (Inr url)
    show ?thesis
    proof (cases "write_file (d @ [back_name i]) (Png (back_image url)) f")
      case (Inl e)
      then show ?thesis using Cons.prems it Inr by simp
    next
      case inr: (Inr f1)
      then have f1: "f1 = f(d @ [back_name i] \<mapsto> File (Png (back_image url)))"
        by (rule write_file_frame)
      have run: "backs_loop d its f1 = (r, f')" using Cons.prems(1) it Inr inr by simp
      show ?thesis
      proof (cases "f' p = f1 p")
        case True
        then have "f1 p \<noteq> f p" using Cons.prems(2) by simp
        then have "p = d @ [back_name i]" using f1 by (auto split: if_splits)
        then show ?thesis by blast
      next
        case False
        then show ?thesis using Cons.IH[OF run] by blast
      qed
    qed
  qed
qed

lemma backs_loop_ok:
  assumes "lookup f d = Some Dir"
    and "\<forall>x. lookup f (d @ [x]) \<noteq> Some Dir"
    and "\<forall>t\<in>set ts. t ''url'' \<noteq> None"
  shows "\<exists>f'. backs_loop d (enumerate n ts) f = (Inr (), f')
     \<and> (\<forall>i<length ts. f' (d @ [back_name (n + i)])
            = Some (File (Png (back_image (the ((ts ! i) ''url''))))))
     \<and> (\<forall>p. (\<forall>i<length ts. p \<noteq> d @ [back_name (n + i)]) \<longrightarrow> f' p = f p)"
  using assms
proof (induction ts arbitrary: n f)
  case Nil
  then show ?case by simp
next
  case (Cons t ts)
  from Cons.prems(3) obtain url where url: "t ''url'' = Some url" by auto
  let ?p = "d @ [back_name n]"
  let ?f1 = "f(?p \<mapsto> File (Png (back_image url)))"
  have w: "write_file ?p (Png (back_image url)) f = Inr ?f1"
    using Cons.prems(1,2) by (simp add: write_file_ok)
  have d1: "lookup ?f1 d = Some Dir" using Cons.prems(1) by (auto simp: lookup_def split: if_splits)
  have d2: "\<forall>x. lookup ?f1 (d @ [x]) \<noteq> Some Dir" using Cons.prems(2) by (auto simp: lookup_def split: if_splits)
  have d3: "\<forall>t\<in>set ts. t ''url'' \<noteq> None" using Cons.prems(3) by simp
  from Cons.IH[OF d1 d2 d3, of "Suc n"] obtain f' where
    run: "backs_loop d (enumerate (Suc n) ts) ?f1 = (Inr (), f')"
    and files: "\<forall>i<length ts. f' (d @ [back_name (Suc n + i)])
            = Some (File (Png (back_image (the ((ts ! i) ''url'')))))"
    and frame: "\<forall>p. (\<forall>i<length ts. p \<noteq> d @ [back_name (Suc n + i)]) \<longrightarrow> f' p = ?f1 p"
    by blast
  have r: "backs_loop d (enumerate n (t # ts)) f = (Inr (), f')"
    using url w run by (simp add: getitem_def)
  have first: "f' ?p = Some (File (Png (back_image url)))"
    using frame by (simp add: back_name_inj)
  have a: "\<forall>i<length (t # ts). f' (d @ [back_name (n + i)])
            = Some (File (Png (back_image (the (((t # ts) ! i) ''url'')))))"
  proof (intro allI impI)
    fix i assume i: "i < length (t # ts)"
    show "f' (d @ [back_name (n + i)]) = Some (File (Png (back_image (the (((t # ts) ! i) ''url'')))))"
    proof (cases i)
      case 0
      then show ?thesis using first url by simp
    next
      case (Suc j)
      then show ?thesis using files i by simp
    qed
  qed
  have b: "\<forall>p. (\<forall>i<length (t # ts). p \<noteq> d @ [back_name (n + i)]) \<longrightarrow> f' p = f p"
  proof (intro allI impI)
    fix p assume p: "\<forall>i<length (t # ts). p \<noteq> d @ [back_name (n + i)]"
    then have p0: "p \<noteq> ?p" by force
    have "\<forall>i<length ts. p \<noteq> d @ [back_name (Suc n + i)]"
    proof (intro allI impI)
      fix i assume "i < length ts"
      then have "Suc i < length (t # ts)" by simp
      with p have "p \<noteq> d @ [back_name (n + Suc i)]" by blast
      then show "p \<noteq> d @ [back_name (Suc n + i)]" by simp
    qed
    then have "f' p = ?f1 p" using frame by blast
    then show "f' p = f p" using p0 by simp
  qed
  from r a b show ?case by blast
qed

lemma fronts_loop_ok:
  assumes "lookup (fs w) d = Some Dir"
    and "\<forall>x. lookup (fs w) (d @ [x]) \<noteq> Some Dir"
    and "\<forall>t\<in>set ts. t ''year'' \<noteq> None \<and> t ''artists'' \<noteq> None \<and> t ''name'' \<noteq> None"
  shows "\<exists>w'. fronts_loop m d (enumerate n ts) w = (Inr (), w')
     \<and> (\<forall>i<length ts. fs w' (d @ [front_name (n + i)])
            = Some (File (Png (front_image (the ((ts ! i) ''year'')) (the ((ts ! i) ''artists''))
                                 (the ((ts ! i) ''name''))))))
     \<and> (\<forall>p. (\<forall>i<length ts. p \<noteq> d @ [front_name (n + i)]) \<longrightarrow> fs w' p = fs w p)"
  using assms
proof (induction ts arbitrary: n w)
  case Nil
  then show ?case by simp
next
  case (Cons t ts)
  from Cons.prems(3) obtain year artists nm where
    keys: "t ''year'' = Some year" "t ''artists'' = Some artists" "t ''name'' = Some nm" by auto
  let ?p = "d @ [front_name n]"
  let ?im = "front_image year artists nm"
  let ?w1 = "w\<lparr>log := log w @ front_warnings m year artists nm\<rparr>"
  let ?f1 = "(fs w)(?p \<mapsto> File (Png ?im))"
  let ?w2 = "?w1\<lparr>fs := ?f1\<rparr>"
  have w: "write_file ?p (Png ?im) (fs w) = Inr ?f1"
    using Cons.prems(1,2) by (simp add: write_file_ok)
  have d1: "lookup (fs ?w2) d = Some Dir"
    using Cons.prems(1) by (auto simp: lookup_def split: if_splits)
  have d2: "\<forall>x. lookup (fs ?w2) (d @ [x]) \<noteq> Some Dir"
    using Cons.prems(2) by (auto simp: lookup_def split: if_splits)
  have d3: "\<forall>t\<in>set ts. t ''year'' \<noteq> None \<and> t ''artists'' \<noteq> None \<and> t ''name'' \<noteq> None"
    using Cons.prems(3) by simp
  from Cons.IH[OF d1 d2 d3, of "Suc n"] obtain w' where
    run: "fronts_loop m d (enumerate (Suc n) ts) ?w2 = (Inr (), w')"
    and files: "\<forall>i<length ts. fs w' (d @ [front_name (Suc n + i)])
            = Some (File (Png (front_image (the ((ts ! i) ''year'')) (the ((ts ! i) ''artists''))
                                 (the ((ts ! i) ''name'')))))"
    and frame: "\<forall>p. (\<forall>i<length ts. p \<noteq> d @ [front_name (Suc n + i)]) \<longrightarrow> fs w' p = fs ?w2 p"
    by blast
  have r: "fronts_loop m d (enumerate n (t # ts)) w = (Inr (), w')"
    using keys w run by (simp add: getitem_def Let_def)
  have "fs w' ?p = fs ?w2 ?p" using frame by (simp add: front_name_inj)
  then have first: "fs w' ?p = Some (File (Png ?im))" by simp
  have a: "\<forall>i<length (t # ts). fs w' (d @ [front_name (n + i)])
            = Some (File (Png (front_image (the (((t # ts) ! i) ''year''))
                 (the (((t # ts) ! i) ''artists'')) (the (((t # ts) ! i) ''name'')))))"
  proof (intro allI impI)
    fix i assume i: "i < length (t # ts)"
    show "fs w' (d @ [front_name (n + i)])
            = Some (File (Png (front_image (the (((t # ts) ! i) ''year''))
                 (the (((t # ts) ! i) ''artists'')) (the (((t # ts) ! i) ''name'')))))"
    proof (cases i)
      case 0
      then show ?thesis using first keys by simp
    next
      case (Suc j)
      then show ?thesis using files i by simp
    qed
  qed
  have b: "\<forall>p. (\<forall>i<length (t # ts). p \<noteq> d @ [front_name (n + i)]) \<longrightarrow> fs w' p = fs w p"
  proof (intro allI impI)
    fix p assume p: "\<forall>i<length (t # ts). p \<noteq> d @ [front_name (n + i)]"
    then have p0: "p \<noteq> ?p" by force
    have "\<forall>i<length ts. p \<noteq> d @ [front_name (Suc n + i)]"
    proof (intro allI impI)
      fix i assume "i < length ts"
      then have "Suc i < length (t # ts)" by simp
      with p have "p \<noteq> d @ [front_name (n + Suc i)]" by blast
      then show "p \<noteq> d @ [front_name (Suc n + i)]" by simp
    qed
    then have "fs w' p = fs ?w2 p" using frame by blast
    then show "fs w' p = fs w p" using p0 by simp
  qed
  from r a b show ?case by blast
qed

lemma wf_fs_below_missing:
  assumes "wf_fs f" and "f (d @ [x]) = None"
  shows "f (d @ [x, y]) = None"
proof (rule ccontr)
  assume "f (d @ [x, y]) \<noteq> None"
  then have "lookup f (butlast (d @ [x, y])) = Some Dir" using assms(1) by (simp add: wf_fs_def)
  then show False using assms(2) by (simp add: butlast_append lookup_def)
qed

lemma generate_cards_ok:
  assumes wf: "wf_fs (fs w)"
    and out: "lookup (fs w) out = Some Dir"
    and nb: "fs w (out @ [''backs'']) = None"
    and nf: "fs w (out @ [''fronts'']) = None"
    and keys: "\<forall>t\<in>set (tracks pl). t ''url'' \<noteq> None \<and> t ''year'' \<noteq> None
                 \<and> t ''artists'' \<noteq> None \<and> t ''name'' \<noteq> None"
  shows "\<exists>w'. generate_cards m out pl w = (Inr (), w')
     \<and> (\<forall>i<length (tracks pl).
           fs w' (out @ [''backs'', back_name i])
             = Some (File (Png (back_image (the ((tracks pl ! i) ''url'')))))
         \<and> fs w' (out @ [''fronts'', front_name i])
             = Some (File (Png (front_image (the ((tracks pl ! i) ''year''))
                  (the ((tracks pl ! i) ''artists'')) (the ((tracks pl ! i) ''name''))))))
     \<and> (\<forall>x. x \<notin> back_name ` {..<length (tracks pl)} \<longrightarrow> fs w' (out @ [''backs'', x]) = None)
     \<and> (\<forall>x. x \<notin> front_name ` {..<length (tracks pl)} \<longrightarrow> fs w' (out @ [''fronts'', x]) = None)"
proof -
  let ?ts = "tracks pl"
  let ?f = "fs w"
  let ?bd = "out @ [''backs'']"
  let ?fd = "out @ [''fronts'']"
  let ?f1 = "?f(?bd \<mapsto> Dir)"
  have below_b: "?f (out @ [''backs'', x]) = None" for x
    using wf_fs_below_missing[OF wf nb] by simp
  have below_f: "?f (out @ [''fronts'', x]) = None" for x
    using wf_fs_below_missing[OF wf nf] by simp
  have mk1: "makedirs ?bd ?f = Inr ?f1"
    using out nb by (simp add: makedirs_child mkdir_fresh)
  have b1: "lookup ?f1 ?bd = Some Dir" by (simp add: lookup_def)
  have b2: "\<forall>x. lookup ?f1 (?bd @ [x]) \<noteq> Some Dir"
    using below_b by (simp add: lookup_def)
  have b3: "\<forall>t\<in>set ?ts. t ''url'' \<noteq> None" using keys by blast
  from backs_loop_ok[OF b1 b2 b3, of 0] obtain f2 where
    run_b: "backs_loop ?bd (enumerate 0 ?ts) ?f1 = (Inr (), f2)"
    and files_b: "\<forall>i<length ?ts. f2 (?bd @ [back_name i])
            = Some (File (Png (back_image (the ((?ts ! i) ''url'')))))"
    and frame_b: "\<forall>p. (\<forall>i<length ?ts. p \<noteq> ?bd @ [back_name i]) \<longrightarrow> f2 p = ?f1 p"
    by auto
  have f2_out: "f2 out = ?f out" using frame_b by simp
  then have out2: "lookup f2 out = Some Dir" using out by (auto simp: lookup_def split: if_splits)
  have f2_fd: "f2 ?fd = None" using frame_b nf by simp
  have f2_below_f: "f2 (out @ [''fronts'', x]) = None" for x
    using frame_b below_f[of x] by simp
  let ?f3 = "f2(?fd \<mapsto> Dir)"
  have mk2: "makedirs ?fd f2 = Inr ?f3"
    using out2 f2_fd by (simp add: makedirs_child mkdir_fresh)
  let ?w3 = "w\<lparr>fs := ?f3\<rparr>"
  have c1: "lookup (fs ?w3) ?fd = Some Dir" by (simp add: lookup_def)
  have c2: "\<forall>x. lookup (fs ?w3) (?fd @ [x]) \<noteq> Some Dir"
    using f2_below_f by (simp add: lookup_def)
  have c3: "\<forall>t\<in>set ?ts. t ''year'' \<noteq> None \<and> t ''artists'' \<noteq> None \<and> t ''name'' \<noteq> None"
    using keys by blast
  from fronts_loop_ok[OF c1 c2 c3, of m 0] obtain w' where
    run_f: "fronts_loop m ?fd (enumerate 0 ?ts) ?w3 = (Inr (), w')"
    and files_f: "\<forall>i<length ?ts. fs w' (?fd @ [front_name i])
            = Some (File (Png (front_image (the ((?ts ! i) ''year'')) (the ((?ts ! i) ''artists''))
                                 (the ((?ts ! i) ''name'')))))"
    and frame_f: "\<forall>p. (\<forall>i<length ?ts. p \<noteq> ?fd @ [front_name i]) \<longrightarrow> fs w' p = fs ?w3 p"
    by auto
  have run: "generate_cards m out pl w = (Inr (), w')"
    by (simp add: generate_cards_def mk1 run_b mk2 run_f)
  have in_b: "fs w' (out @ [''backs'', x]) = f2 (out @ [''backs'', x])" for x
    using frame_f by simp
  have p1: "\<forall>i<length ?ts.
           fs w' (out @ [''backs'', back_name i])
             = Some (File (Png (back_image (the ((?ts ! i) ''url'')))))
         \<and> fs w' (out @ [''fronts'', front_name i])
             = Some (File (Png (front_image (the ((?ts ! i) ''year''))
                  (the ((?ts ! i) ''artists'')) (the ((?ts ! i) ''name'')))))"
    using files_b files_f by (simp add: in_b)
  have p2: "\<forall>x. x \<notin> back_name ` {..<length ?ts} \<longrightarrow> fs w' (out @ [''backs'', x]) = None"
  proof (intro allI impI)
    fix x assume x: "x \<notin> back_name ` {..<length ?ts}"
    then have "\<forall>i<length ?ts. out @ [''backs'', x] \<noteq> ?bd @ [back_name i]" by auto
    then have "f2 (out @ [''backs'', x]) = ?f1 (out @ [''backs'', x])" using frame_b by blast
    then show "fs w' (out @ [''backs'', x]) = None" using below_b[of x] by (simp add: in_b)
  qed
  have p3: "\<forall>x. x \<notin> front_name ` {..<length ?ts} \<longrightarrow> fs w' (out @ [''fronts'', x]) = None"
  proof (intro allI impI)
    fix x assume x: "x \<notin> front_name ` {..<length ?ts}"
    then have "\<forall>i<length ?ts. out @ [''fronts'', x] \<noteq> ?fd @ [front_name i]" by auto
    then have "fs w' (out @ [''fronts'', x]) = fs ?w3 (out @ [''fronts'', x])" using frame_f by blast
    then show "fs w' (out @ [''fronts'', x]) = None" using f2_below_f[of x] by simp
  qed
  from run p1 p2 p3 show ?thesis by blast
qed

lemma wf_fs_parent: "wf_fs f \<Longrightarrow> f (d @ [x]) \<noteq> None \<Longrightarrow> lookup f d = Some Dir"
  by (auto simp: wf_fs_def dest!: spec[where x = "d @ [x]"])

lemma mkdir_result: "mkdir p f = Inr f' \<Longrightarrow> f' = f(p \<mapsto> Dir)"
  by (auto simp: mkdir_def split: if_splits option.splits node.splits)

lemma digit_not_space: "is_digit c \<Longrightarrow> \<not> is_space c"
  by (auto simp: is_digit_def is_space_def)

lemma not_digit_sign: "\<not> is_digit (CHR ''-'')" "\<not> is_digit (CHR ''+'')" "\<not> is_digit (CHR ''_'')"
  by (simp_all add: is_digit_def)
lemma digit_not_sign: "is_digit c \<Longrightarrow> c \<noteq> CHR ''-'' \<and> c \<noteq> CHR ''+'' \<and> c \<noteq> CHR ''_''"
  using not_digit_sign by blast

lemma dropWhile_hd: "xs \<noteq> [] \<Longrightarrow> \<not> P (hd xs) \<Longrightarrow> dropWhile P xs = xs"
  by (cases xs) simp_all

lemma strip_digits:
  assumes "s \<noteq> []" and "\<forall>c\<in>set s. is_digit c"
  shows "strip s = s"
proof -
  have "\<not> is_space (hd s)" using assms by (simp add: digit_not_space)
  then have 1: "dropWhile is_space s = s" using assms(1) by (simp add: dropWhile_hd)
  have "hd (rev s) \<in> set s" using assms(1) by (simp add: hd_rev)
  then have "\<not> is_space (hd (rev s))" using assms(2) by (simp add: digit_not_space)
  then have 2: "dropWhile is_space (rev s) = rev s" using assms(1) by (simp add: dropWhile_hd)
  show ?thesis by (simp add: strip_def 1 2)
qed

lemma digits_acc_all_digits:
  "\<forall>c\<in>set cs. is_digit c \<Longrightarrow>
   digits_acc n cs = Inr (foldl (\<lambda>a c. 10 * a + digit_val c) n cs)"
proof (induction cs arbitrary: n)
  case Nil
  show ?case by simp
next
  case (Cons c cs)
  have c: "is_digit c" using Cons.prems by simp
  have "digits_acc (10 * n + digit_val c) cs
      = Inr (foldl (\<lambda>a c. 10 * a + digit_val c) (10 * n + digit_val c) cs)"
    using Cons.prems by (intro Cons.IH) simp
  then show ?case using c by simp
qed

lemma foldl_digits_int:
  "\<forall>c\<in>set cs. is_digit c \<Longrightarrow>
   foldl (\<lambda>a c. 10 * a + digit_val c) (int k) cs
     = int (foldl (\<lambda>a c. 10 * a + (of_char c - 48)) k cs)"
proof (induction cs arbitrary: k)
  case Nil
  then show ?case by simp
next
  case (Cons c cs)
  then have "48 \<le> (of_char c :: nat)" by (simp add: is_digit_def)
  then have e: "10 * int k + digit_val c = int (10 * k + (of_char c - 48))"
    by (simp add: digit_val_def)
  have "foldl (\<lambda>a c. 10 * a + digit_val c) (int (10 * k + (of_char c - 48))) cs
     = int (foldl (\<lambda>a c. 10 * a + (of_char c - 48)) (10 * k + (of_char c - 48)) cs)"
    using Cons.prems by (intro Cons.IH) simp
  then show ?case by (simp only: foldl.simps e)
qed

lemma digits_acc_digits:
  "\<forall>c\<in>set cs. is_digit c \<Longrightarrow>
   digits_acc (int k) cs = Inr (int (foldl (\<lambda>a c. 10 * a + (of_char c - 48)) k cs))"
  by (simp add: digits_acc_all_digits foldl_digits_int)

lemma py_int_digits:
  assumes "s \<noteq> []" and "\<forall>c\<in>set s. is_digit c" and "length s \<le> 4300"
  shows "py_int s = Inr (int (dec s))"
proof -
  obtain c cs where s: "s = c # cs" using assms(1) by (cases s) auto
  have c: "is_digit c" and cs: "\<forall>c\<in>set cs. is_digit c" using assms(2) s by auto
  have f: "filter is_digit s = s" using assms(2) by simp
  have "digit_val c = int (of_char c - 48)" using c by (simp add: digit_val_def is_digit_def)
  then have "digits_acc (digit_val c) cs = Inr (int (dec s))"
    using digits_acc_digits[OF cs, of "of_char c - 48"] by (simp add: dec_def s)
  then have "py_int_unsigned s = Inr (int (dec s))"
    using c assms(3) f by (simp add: py_int_unsigned_def s int_max_str_digits_def)
  then show ?thesis
    using strip_digits[OF assms(1,2)] digit_not_sign[OF c] by (simp add: py_int_def s)
qed

lemma foldl_dec: "foldl (\<lambda>a c. 10 * a + (of_char c - 48)) k cs = k * 10 ^ length cs + dec cs"
proof (induction cs arbitrary: k)
  case Nil
  show ?case by (simp add: dec_def)
next
  case (Cons c cs)
  have "foldl (\<lambda>a c. 10 * a + (of_char c - 48)) k (c # cs)
      = foldl (\<lambda>a c. 10 * a + (of_char c - 48)) (10 * k + (of_char c - 48)) cs" by simp
  also have "\<dots> = (10 * k + (of_char c - 48)) * 10 ^ length cs + dec cs" by (rule Cons.IH)
  also have "dec (c # cs) = (of_char c - 48) * 10 ^ length cs + dec cs"
    using Cons.IH[of "of_char c - 48"] by (simp add: dec_def)
  then have "(10 * k + (of_char c - 48)) * 10 ^ length cs + dec cs
      = k * 10 ^ length (c # cs) + dec (c # cs)" by (simp add: algebra_simps)
  finally show ?case .
qed
lemma dec_Cons: "dec (c # cs) = (of_char c - 48) * 10 ^ length cs + dec cs"
  using foldl_dec[of "of_char c - 48" cs] by (simp add: dec_def)

lemma dec_bound: "\<forall>c\<in>set s. is_digit c \<Longrightarrow> dec s < 10 ^ length s"
proof (induction s rule: rev_induct)
  case Nil
  then show ?case by (simp add: dec_def)
next
  case (snoc x xs)
  then have "dec xs < 10 ^ length xs" by simp
  then have "10 * dec xs + 10 \<le> 10 * 10 ^ length xs" by simp
  moreover have "(of_char x :: nat) \<le> 57" using snoc.prems by (simp add: is_digit_def)
  then have "(of_char x :: nat) - 48 \<le> 9" by linarith
  ultimately show ?case by (simp add: dec_snoc)
qed

lemma mult_step: "a < (b::nat) \<Longrightarrow> (a + 1) * k \<le> b * k"
proof -
  assume "a < b"
  then have "Suc a \<le> b" by simp
  then have "Suc a * k \<le> b * k" by (rule mult_le_mono1)
  then show ?thesis by simp
qed

lemma str_lt_dec:
  assumes "length xs = length ys" and "\<forall>c\<in>set xs. is_digit c" and "\<forall>c\<in>set ys. is_digit c"
  shows "str_lt xs ys \<longleftrightarrow> dec xs < dec ys"
  using assms
proof (induction xs ys rule: list_induct2)
  case Nil
  then show ?case by (simp add: dec_def)
next
  case (Cons x xs y ys)
  let ?n = "length xs"
  have "\<forall>c\<in>set xs. is_digit c" using Cons.prems by simp
  then have bx: "dec xs < 10 ^ ?n" by (rule dec_bound)
  have "\<forall>c\<in>set ys. is_digit c" using Cons.prems by simp
  then have "dec ys < 10 ^ length ys" by (rule dec_bound)
  then have by': "dec ys < 10 ^ ?n" using Cons.hyps by simp
  have dx: "48 \<le> (of_char x :: nat)" and dy: "48 \<le> (of_char y :: nat)"
    using Cons.prems by (simp_all add: is_digit_def)
  have step: "a < b \<Longrightarrow> a * 10 ^ ?n + dec xs < b * 10 ^ ?n + dec ys" for a b :: nat
  proof -
    assume "a < b"
    then have "(a + 1) * 10 ^ ?n \<le> b * 10 ^ ?n" by (rule mult_step)
    moreover have "a * 10 ^ ?n + dec xs < (a + 1) * 10 ^ ?n" using bx by simp
    ultimately show ?thesis by linarith
  qed
  have step': "b < a \<Longrightarrow> \<not> a * 10 ^ ?n + dec xs < b * 10 ^ ?n + dec ys" for a b :: nat
  proof -
    assume "b < a"
    then have "(b + 1) * 10 ^ ?n \<le> a * 10 ^ ?n" by (rule mult_step)
    moreover have "b * 10 ^ ?n + dec ys < (b + 1) * 10 ^ ?n" using by' by simp
    ultimately show ?thesis by linarith
  qed
  consider "(of_char x :: nat) < of_char y" | "(of_char y :: nat) < of_char x" | "(of_char x :: nat) = of_char y"
    by linarith
  then show ?case
  proof cases
    case 1
    then have "(of_char x :: nat) - 48 < of_char y - 48" using dx dy by linarith
    then have "dec (x # xs) < dec (y # ys)" using step Cons.hyps by (simp add: dec_Cons)
    then show ?thesis using 1 by simp
  next
    case 2
    then have "(of_char y :: nat) - 48 < of_char x - 48" using dx dy by linarith
    then have "\<not> dec (x # xs) < dec (y # ys)" using step' Cons.hyps by (simp add: dec_Cons)
    then show ?thesis using 2 by simp
  next
    case 3
    have "str_lt xs ys \<longleftrightarrow> dec xs < dec ys" using Cons.IH Cons.prems by simp
    then show ?thesis using 3 Cons.hyps by (simp add: dec_Cons)
  qed
qed

lemma fold_min_dec:
  assumes "year_strings n (x # xs)"
  shows "fold (\<lambda>y m. if str_lt y m then y else m) xs x \<in> set (x # xs)
       \<and> dec (fold (\<lambda>y m. if str_lt y m then y else m) xs x) = Min (dec ` set (x # xs))"
  using assms
proof (induction xs arbitrary: x)
  case Nil
  show ?case by simp
next
  case (Cons y ys)
  let ?m = "if str_lt y x then y else x"
  have xy: "str_lt y x \<longleftrightarrow> dec y < dec x"
    using Cons.prems by (intro str_lt_dec) (simp_all add: year_strings_def)
  have m: "dec ?m = min (dec x) (dec y)" using xy by (simp add: min_def)
  have ys: "year_strings n (?m # ys)" using Cons.prems by (simp add: year_strings_def)
  from Cons.IH[OF ys] have
    1: "fold (\<lambda>y m. if str_lt y m then y else m) ys ?m \<in> set (?m # ys)"
    and 2: "dec (fold (\<lambda>y m. if str_lt y m then y else m) ys ?m) = Min (dec ` set (?m # ys))"
    by blast+
  have a: "fold (\<lambda>y m. if str_lt y m then y else m) (y # ys) x \<in> set (x # y # ys)"
    using 1 by (auto split: if_splits)
  have "Min (dec ` set (?m # ys)) = Min (insert (min (dec x) (dec y)) (dec ` set ys))"
    using m by simp
  also have "\<dots> = Min (dec ` set (x # y # ys))"
    by (cases "ys = []") (simp_all add: min.assoc)
  finally have b: "dec (fold (\<lambda>y m. if str_lt y m then y else m) (y # ys) x) = Min (dec ` set (x # y # ys))"
    using 2 by simp
  from a b show ?case by blast
qed

lemma fold_max_dec:
  assumes "year_strings n (x # xs)"
  shows "fold (\<lambda>y m. if str_lt m y then y else m) xs x \<in> set (x # xs)
       \<and> dec (fold (\<lambda>y m. if str_lt m y then y else m) xs x) = Max (dec ` set (x # xs))"
  using assms
proof (induction xs arbitrary: x)
  case Nil
  show ?case by simp
next
  case (Cons y ys)
  let ?m = "if str_lt x y then y else x"
  have xy: "str_lt x y \<longleftrightarrow> dec x < dec y"
    using Cons.prems by (intro str_lt_dec) (simp_all add: year_strings_def)
  have m: "dec ?m = max (dec x) (dec y)" using xy by (simp add: max_def)
  have ys: "year_strings n (?m # ys)" using Cons.prems by (simp add: year_strings_def)
  from Cons.IH[OF ys] have
    1: "fold (\<lambda>y m. if str_lt m y then y else m) ys ?m \<in> set (?m # ys)"
    and 2: "dec (fold (\<lambda>y m. if str_lt m y then y else m) ys ?m) = Max (dec ` set (?m # ys))"
    by blast+
  have a: "fold (\<lambda>y m. if str_lt m y then y else m) (y # ys) x \<in> set (x # y # ys)"
    using 1 by (auto split: if_splits)
  have "Max (dec ` set (?m # ys)) = Max (insert (max (dec x) (dec y)) (dec ` set ys))"
    using m by simp
  also have "\<dots> = Max (dec ` set (x # y # ys))"
    by (cases "ys = []") (simp_all add: max.assoc)
  finally have b: "dec (fold (\<lambda>y m. if str_lt m y then y else m) (y # ys) x) = Max (dec ` set (x # y # ys))"
    using 2 by simp
  from a b show ?case by blast
qed

lemma py_min_years:
  assumes "year_strings n years" and "years \<noteq> []"
  shows "\<exists>lo. py_min years = Inr lo \<and> lo \<in> set years \<and> dec lo = Min (dec ` set years)"
proof -
  obtain x xs where y: "years = x # xs" using assms(2) by (cases years) auto
  show ?thesis using fold_min_dec[of n x xs] assms(1) unfolding y by simp
qed

lemma py_max_years:
  assumes "year_strings n years" and "years \<noteq> []"
  shows "\<exists>hi. py_max years = Inr hi \<and> hi \<in> set years \<and> dec hi = Max (dec ` set years)"
proof -
  obtain x xs where y: "years = x # xs" using assms(2) by (cases years) auto
  show ?thesis using fold_max_dec[of n x xs] assms(1) unfolding y by simp
qed

lemma py_int_year:
  assumes "year_strings n years" and "0 < n" and "n \<le> 4300" and "y \<in> set years"
  shows "py_int y = Inr (int (dec y))"
proof -
  have "length y = n" "\<forall>c\<in>set y. is_digit c" using assms(1,4) by (auto simp: year_strings_def)
  moreover then have "y \<noteq> []" using assms(2) by auto
  ultimately show ?thesis using assms(3) by (intro py_int_digits) simp_all
qed

lemma sum_list_incr:
  "k < length xs \<Longrightarrow> sum_list (xs[k := xs ! k + 1]) = sum_list xs + (1::int)"
proof (induction xs arbitrary: k)
  case Nil
  then show ?case by simp
next
  case (Cons x xs)
  then show ?case by (cases k) simp_all
qed

lemma list_incr_in_range:
  assumes "0 \<le> j" and "j < int (length xs)"
  shows "list_incr xs j = Inr (xs[nat j := xs ! nat j + 1])"
  using assms by (simp add: list_incr_def Let_def)

lemma count_loop_counts:
  assumes "\<forall>y\<in>set ys. py_int y = Inr (int (dec y)) \<and> a \<le> int (dec y)
             \<and> int (dec y) < a + int (length counts)"
  shows "\<exists>cs. count_loop a ys counts = Inr cs \<and> length cs = length counts
       \<and> (\<forall>k<length counts. cs ! k = counts ! k
              + int (length (filter (\<lambda>y. int (dec y) = a + int k) ys)))
       \<and> sum_list cs = sum_list counts + int (length ys)"
  using assms
proof (induction ys arbitrary: counts)
  case Nil
  show ?case by simp
next
  case (Cons y ys)
  let ?j = "int (dec y) - a"
  let ?c1 = "counts[nat ?j := counts ! nat ?j + 1]"
  have y: "py_int y = Inr (int (dec y))" "0 \<le> ?j" "?j < int (length counts)"
    using Cons.prems by auto
  have inc: "list_incr counts ?j = Inr ?c1" using y(2,3) by (rule list_incr_in_range)
  have jl: "nat ?j < length counts" using y(2,3) by linarith
  have rest: "\<forall>y\<in>set ys. py_int y = Inr (int (dec y)) \<and> a \<le> int (dec y)
             \<and> int (dec y) < a + int (length ?c1)"
    using Cons.prems by simp
  from Cons.IH[OF rest] obtain cs where
    run: "count_loop a ys ?c1 = Inr cs" and len: "length cs = length ?c1"
    and nth: "\<forall>k<length ?c1. cs ! k = ?c1 ! k
              + int (length (filter (\<lambda>y. int (dec y) = a + int k) ys))"
    and sum: "sum_list cs = sum_list ?c1 + int (length ys)"
    by blast
  have r: "count_loop a (y # ys) counts = Inr cs" using y(1) inc run by simp
  have l: "length cs = length counts" using len by simp
  have n: "\<forall>k<length counts. cs ! k = counts ! k
              + int (length (filter (\<lambda>y. int (dec y) = a + int k) (y # ys)))"
  proof (intro allI impI)
    fix k assume k: "k < length counts"
    then have ck: "cs ! k = ?c1 ! k + int (length (filter (\<lambda>y. int (dec y) = a + int k) ys))"
      using nth by simp
    show "cs ! k = counts ! k
              + int (length (filter (\<lambda>y. int (dec y) = a + int k) (y # ys)))"
    proof (cases "k = nat ?j")
      case True
      then have "int (dec y) = a + int k" using y(2) by simp
      moreover have "?c1 ! k = counts ! k + 1" using True k by simp
      ultimately show ?thesis using ck by simp
    next
      case False
      then have "int (dec y) \<noteq> a + int k" by auto
      moreover have "?c1 ! k = counts ! k" using False by simp
      ultimately show ?thesis using ck by simp
    qed
  qed
  have s: "sum_list cs = sum_list counts + int (length (y # ys))"
    using sum sum_list_incr[OF jl] by simp
  from r l n s show ?case by blast
qed

lemma labels_upto: "map (\<lambda>i. i + a) (py_range1 (b - a + 1)) = [a..b]"
proof (rule nth_equalityI)
  show "length (map (\<lambda>i. i + a) (py_range1 (b - a + 1))) = length [a..b]"
    by (simp add: py_range1_def)
next
  fix i assume "i < length (map (\<lambda>i. i + a) (py_range1 (b - a + 1)))"
  then have i: "i < nat (b - a + 1)" by (simp add: py_range1_def)
  then have "a + int i \<le> b" by linarith
  then have "[a..b] ! i = a + int i" by (rule nth_upto)
  then show "map (\<lambda>i. i + a) (py_range1 (b - a + 1)) ! i = [a..b] ! i"
    using i by (simp add: py_range1_def)
qed

lemma getitems_all:
  "\<forall>t\<in>set ts. t k \<noteq> None \<Longrightarrow> getitems k ts = Inr (map (\<lambda>t. the (t k)) ts)"
  by (induction ts) (auto simp: getitem_def)

lemma histogram_bins_years:
  assumes ys: "year_strings n years" and ne: "years \<noteq> []" and n0: "0 < n" and n1: "n \<le> 4300"
  shows "\<exists>lo hi counts.
           py_min years = Inr lo \<and> py_int lo = Inr (int (Min (dec ` set years)))
         \<and> py_max years = Inr hi \<and> py_int hi = Inr (int (Max (dec ` set years)))
         \<and> histogram_bins years
              = Inr ([int (Min (dec ` set years))..int (Max (dec ` set years))], counts)
         \<and> length counts = nat (int (Max (dec ` set years)) - int (Min (dec ` set years)) + 1)
         \<and> (\<forall>k<length counts. counts ! k
               = int (length (filter (\<lambda>y. int (dec y) = int (Min (dec ` set years)) + int k) years)))
         \<and> sum_list counts = int (length years)"
proof -
  let ?a = "int (Min (dec ` set years))"
  let ?b = "int (Max (dec ` set years))"
  let ?c0 = "map (\<lambda>_. 0::int) (py_range1 (?b - ?a + 1))"
  from py_min_years[OF ys ne] obtain lo where
    lo: "py_min years = Inr lo" "lo \<in> set years" "dec lo = Min (dec ` set years)" by blast
  from py_max_years[OF ys ne] obtain hi where
    hi: "py_max years = Inr hi" "hi \<in> set years" "dec hi = Max (dec ` set years)" by blast
  have a: "py_int lo = Inr ?a" using py_int_year[OF ys n0 n1 lo(2)] lo(3) by simp
  have b: "py_int hi = Inr ?b" using py_int_year[OF ys n0 n1 hi(2)] hi(3) by simp
  have len0: "length ?c0 = nat (?b - ?a + 1)" by (simp add: py_range1_def)
  have fin: "finite (dec ` set years)" by simp
  have inr: "\<forall>y\<in>set years. py_int y = Inr (int (dec y)) \<and> ?a \<le> int (dec y)
             \<and> int (dec y) < ?a + int (length ?c0)"
  proof
    fix y assume y: "y \<in> set years"
    have 1: "py_int y = Inr (int (dec y))" using ys n0 n1 y by (rule py_int_year)
    have "Min (dec ` set years) \<le> dec y" using y by simp
    then have 2: "?a \<le> int (dec y)" by simp
    have "dec y \<le> Max (dec ` set years)" using y by simp
    then have "int (dec y) \<le> ?b" by simp
    then have le: "int (dec y) \<le> ?b" .
    have "0 \<le> ?b - ?a + 1" using 2 le by linarith
    then have "int (nat (?b - ?a + 1)) = ?b - ?a + 1" by (rule int_nat_eq[THEN trans, OF if_P])
    then have "int (length ?c0) = ?b - ?a + 1" by (simp only: len0)
    then have 3: "int (dec y) < ?a + int (length ?c0)" using le by linarith
    from 1 2 3 show "py_int y = Inr (int (dec y)) \<and> ?a \<le> int (dec y)
             \<and> int (dec y) < ?a + int (length ?c0)" by blast
  qed
  from count_loop_counts[OF inr] obtain cs where
    run: "count_loop ?a years ?c0 = Inr cs" and len: "length cs = length ?c0"
    and nth: "\<forall>k<length ?c0. cs ! k = ?c0 ! k
              + int (length (filter (\<lambda>y. int (dec y) = ?a + int k) years))"
    and sum: "sum_list cs = sum_list ?c0 + int (length years)"
    by blast
  have z: "?c0 ! k = 0" if "k < length ?c0" for k using that by simp
  have s0: "sum_list ?c0 = 0" by (simp add: sum_list_0)
  have hb: "histogram_bins years = Inr ([?a..?b], cs)"
    by (simp add: histogram_bins_def lo(1) a hi(1) b Let_def run labels_upto)
  have l: "length cs = nat (?b - ?a + 1)" using len len0 by simp
  have n: "\<forall>k<length cs. cs ! k = int (length (filter (\<lambda>y. int (dec y) = ?a + int k) years))"
    using nth z len by simp
  have s: "sum_list cs = int (length years)" using sum s0 by simp
  from lo(1) a hi(1) b hb l n s show ?thesis by blast
qed

lemmas py_int_eval = py_int_def py_int_unsigned_def strip_def is_space_def is_digit_def
  digit_val_def int_max_str_digits_def

section \<open>Properties\<close>

subsection \<open>Histogram on an empty track list\<close>

text \<open>
  C4. For a playlist without tracks, \<^verbatim>\<open>min\<close> of the empty list of years raises
  ValueError, \<^verbatim>\<open>generate_histogram\<close> fails with that error, and the file system (and the
  log) are left as they were: no chart is written, not even an empty one.
\<close>

theorem histogram_empty_tracks_fails:
  "py_min [] = Inl ValueError
   \<and> generate_histogram output_directory (pl\<lparr>tracks := []\<rparr>) w = (Inl ValueError, w)"
  by (simp add: generate_histogram_def histogram_bins_def)

subsection \<open>Back card\<close>

text \<open>
  C9. The back card of a track is a 1000 x 1000 canvas in the background colour with a
  single drawing call: the code for the track's url, resized to 700 x 700 (0.7 of the
  canvas width), pasted at (150, 150), where 150 is \<open>CARD_WH - QR_W div 2\<close>; the margins
  on both sides of the code are equal, so the code is centred exactly.
\<close>

theorem back_image_centred_code:
  "back_image url =
     \<lparr>img_w = 1000, img_h = 1000, img_bg = BG,
      img_ops = [Paste \<lparr>qr_data = url, qr_w = 700, qr_h = 700\<rparr> 150 150]\<rparr>
   \<and> 10 * QR_W = 7 * CARD_W
   \<and> CARD_WH - QR_W div 2 = 150
   \<and> 150 + QR_W + 150 = CARD_W"
  by (simp add: back_image_def image_new_def draw_def consts_defs)

subsection \<open>Front card\<close>

text \<open>
  C7, as stated, fails: the title is anchored at row \<open>5 * (1000 div 6) = 830\<close>, which is
  not 5/6 of the canvas height (833.33...), nor that value rounded down.
\<close>

theorem front_title_anchor_counterexample:
  "img_ops (front_image ''1969'' ''Artist'' ''Title'') ! 2
     = Text 500 830 ''Title'' FG FONT ''mm'' ''center''
   \<and> (830 :: rat) \<noteq> 5 / 6 * of_int CARD_W
   \<and> (830 :: int) \<noteq> (5 * CARD_W) div 6"
  by (simp add: front_image_def image_new_def draw_def consts_defs)

text \<open>
  C7, amended. The front card is a 1000 x 1000 canvas in the background colour with three
  text calls, all with PIL's anchor \<open>mm\<close> (middle of the text horizontally and
  vertically) at x = 500, the canvas midline: the year in the large font at row
  \<open>CARD_W div 2 = 500\<close>, the artists in the body font at row \<open>CARD_W div 6 = 166\<close>, the
  title in the body font at row \<open>5 * (CARD_W div 6) = 830\<close>.
\<close>

theorem front_image_anchors:
  "front_image year artists nm =
     \<lparr>img_w = 1000, img_h = 1000, img_bg = BG,
      img_ops = [Text 500 500 year FG LARGE_FONT ''mm'' ''center'',
                 Text 500 166 artists FG FONT ''mm'' ''center'',
                 Text 500 830 nm FG FONT ''mm'' ''center'']\<rparr>
   \<and> CARD_WH = CARD_W div 2 \<and> 2 * CARD_WH = CARD_W
   \<and> CARD_W6 = CARD_W div 6 \<and> CARD_W6 = 166 \<and> 5 * CARD_W6 = 830"
  by (simp add: front_image_def image_new_def draw_def consts_defs)

text \<open>
  C3. For a track with the three keys, in a front directory that exists: the warning for
  a field is among the messages logged for the track exactly when the width of that
  field's bounding box is at least \<open>CARD_W - 100\<close>; nothing else is logged; whatever the
  widths are, the loop saves the front image with the three full strings and goes on
  with the remaining tracks.
\<close>

theorem front_overflow_warning_advisory:
  assumes "t ''year'' = Some year" and "t ''artists'' = Some artists" and "t ''name'' = Some nm"
    and "lookup (fs w) front_dir = Some Dir"
    and "lookup (fs w) (front_dir @ [front_name i]) \<noteq> Some Dir"
  shows "(too_long_msg ''year'' year \<in> set (front_warnings m year artists nm)
            \<longleftrightarrow> of_int (CARD_W - 100) \<le> bbox_width m LARGE_FONT year)
       \<and> (too_long_msg ''artists'' artists \<in> set (front_warnings m year artists nm)
            \<longleftrightarrow> of_int (CARD_W - 100) \<le> bbox_width m FONT artists)
       \<and> (too_long_msg ''name'' nm \<in> set (front_warnings m year artists nm)
            \<longleftrightarrow> of_int (CARD_W - 100) \<le> bbox_width m FONT nm)
       \<and> set (front_warnings m year artists nm)
            \<subseteq> {too_long_msg ''year'' year, too_long_msg ''artists'' artists, too_long_msg ''name'' nm}
       \<and> fronts_loop m front_dir ((i, t) # rest) w =
           fronts_loop m front_dir rest
             (w\<lparr>log := log w @ front_warnings m year artists nm,
                fs := (fs w)(front_dir @ [front_name i] \<mapsto> File (Png (front_image year artists nm)))\<rparr>)
       \<and> img_ops (front_image year artists nm) =
           [Text CARD_WH CARD_WH year FG LARGE_FONT ''mm'' ''center'',
            Text CARD_WH CARD_W6 artists FG FONT ''mm'' ''center'',
            Text CARD_WH (5 * CARD_W6) nm FG FONT ''mm'' ''center'']"
proof -
  have a: "too_long_msg ''year'' year \<in> set (front_warnings m year artists nm)
            \<longleftrightarrow> of_int (CARD_W - 100) \<le> bbox_width m LARGE_FONT year"
    by (simp add: front_warnings_def overflow_check_def too_long_msg_field TEXT_MARGIN_def)
  have b: "too_long_msg ''artists'' artists \<in> set (front_warnings m year artists nm)
            \<longleftrightarrow> of_int (CARD_W - 100) \<le> bbox_width m FONT artists"
    by (simp add: front_warnings_def overflow_check_def too_long_msg_field TEXT_MARGIN_def)
  have c: "too_long_msg ''name'' nm \<in> set (front_warnings m year artists nm)
            \<longleftrightarrow> of_int (CARD_W - 100) \<le> bbox_width m FONT nm"
    by (simp add: front_warnings_def overflow_check_def too_long_msg_field TEXT_MARGIN_def)
  have d: "set (front_warnings m year artists nm)
            \<subseteq> {too_long_msg ''year'' year, too_long_msg ''artists'' artists, too_long_msg ''name'' nm}"
    by (auto simp: front_warnings_def overflow_check_def split: if_splits)
  have w: "write_file (front_dir @ [front_name i]) c (fs w) = Inr ((fs w)(front_dir @ [front_name i] \<mapsto> File c))" for c
    using assms(4,5) by (simp add: write_file_def split: option.splits node.splits)
  have e: "fronts_loop m front_dir ((i, t) # rest) w =
           fronts_loop m front_dir rest
             (w\<lparr>log := log w @ front_warnings m year artists nm,
                fs := (fs w)(front_dir @ [front_name i] \<mapsto> File (Png (front_image year artists nm)))\<rparr>)"
    using assms(1-3) by (simp add: getitem_def w Let_def)
  have f: "img_ops (front_image year artists nm) =
           [Text CARD_WH CARD_WH year FG LARGE_FONT ''mm'' ''center'',
            Text CARD_WH CARD_W6 artists FG FONT ''mm'' ''center'',
            Text CARD_WH (5 * CARD_W6) nm FG FONT ''mm'' ''center'']"
    by (simp add: front_image_def draw_def image_new_def)
  from a b c d e f show ?thesis by blast
qed


theorem front_overflow_warning_advisory_witness:
  "too_long_msg ''name'' ''A title of more than forty five characters in all''
     \<in> set (front_warnings
          \<lparr>textbbox = (\<lambda>f s. (0, 0, of_nat (length s) * (if f = FONT then 20 else 70), 30)),
           textlength = (\<lambda>f s. of_nat (length s) * 20)\<rparr>
          ''1969'' ''The Band'' ''A title of more than forty five characters in all'')
   \<and> too_long_msg ''year'' ''1969''
     \<notin> set (front_warnings
          \<lparr>textbbox = (\<lambda>f s. (0, 0, of_nat (length s) * (if f = FONT then 20 else 70), 30)),
           textlength = (\<lambda>f s. of_nat (length s) * 20)\<rparr>
          ''1969'' ''The Band'' ''A title of more than forty five characters in all'')
   \<and> fst (fronts_loop
       \<lparr>textbbox = (\<lambda>f s. (0, 0, of_nat (length s) * (if f = FONT then 20 else 70), 30)),
        textlength = (\<lambda>f s. of_nat (length s) * 20)\<rparr>
       [] [(0, [''year'' \<mapsto> ''1969'', ''artists'' \<mapsto> ''The Band'',
                ''name'' \<mapsto> ''A title of more than forty five characters in all''])]
       \<lparr>fs = Map.empty, log = []\<rparr>) = Inr ()"
proof -
  let ?T = "''A title of more than forty five characters in all''"
  let ?t = "[''year'' \<mapsto> ''1969'', ''artists'' \<mapsto> ''The Band'', ''name'' \<mapsto> ?T]"
  let ?m = "\<lparr>textbbox = (\<lambda>f s. (0, 0, of_nat (length s) * (if f = FONT then 20 else 70), 30)),
             textlength = (\<lambda>f s. of_nat (length s) * 20)\<rparr>"
  let ?w = "\<lparr>fs = Map.empty, log = []\<rparr>"
  have h1: "?t ''year'' = Some ''1969''" by simp
  have h2: "?t ''artists'' = Some ''The Band''" by simp
  have h3: "?t ''name'' = Some ?T" by simp
  have h4: "lookup (fs ?w) [] = Some Dir" by (simp add: lookup_def)
  have h5: "lookup (fs ?w) ([] @ [front_name 0]) \<noteq> Some Dir" by (simp add: lookup_def)
  note th = front_overflow_warning_advisory [OF h1 h2 h3 h4 h5, of ?m "[]"]
  have wide: "of_int (CARD_W - 100) \<le> bbox_width ?m FONT ?T"
    by (simp add: bbox_width_def CARD_W_def)
  have narrow: "\<not> of_int (CARD_W - 100) \<le> bbox_width ?m LARGE_FONT ''1969''"
    by (simp add: bbox_width_def CARD_W_def)
  from th wide have p1: "too_long_msg ''name'' ?T \<in> set (front_warnings ?m ''1969'' ''The Band'' ?T)"
    by blast
  from th narrow have p2: "too_long_msg ''year'' ''1969'' \<notin> set (front_warnings ?m ''1969'' ''The Band'' ?T)"
    by blast
  from th have e: "fronts_loop ?m [] [(0, ?t)] ?w =
      fronts_loop ?m [] []
        (?w\<lparr>log := log ?w @ front_warnings ?m ''1969'' ''The Band'' ?T,
            fs := (fs ?w)([] @ [front_name 0] \<mapsto> File (Png (front_image ''1969'' ''The Band'' ?T)))\<rparr>)"
    by blast
  have p3: "fst (fronts_loop ?m [] [(0, ?t)] ?w) = Inr ()"
    by (simp only: e fronts_loop.simps(1) fst_conv)
  from p1 p2 p3 show ?thesis by blast
qed

subsection \<open>Box art\<close>

text \<open>
  C6. With \<open>L\<close> the ceiling of the rendered width of the playlist name in the body font
  and \<open>S = int(1.5 * 32) = 48\<close>: the rows \<open>y\<close> are the values \<open>-1000, -1000 + S, ...\<close> below
  2000, the columns \<open>x\<close> the values \<open>-1000, -1000 + (L + S), ...\<close> below 2000, both in
  increasing order; the name is drawn at \<open>(x + y, y)\<close> for every row and, within the row,
  every column; the image is written to the single file \<open>box.png\<close>. The width is taken
  to be non-negative, the output directory to exist.
\<close>

theorem generate_box_tiling:
  assumes "0 \<le> textlength m FONT (name pl)"
    and "lookup (fs w) output_directory = Some Dir"
    and "lookup (fs w) (output_directory @ [''box.png'']) \<noteq> Some Dir"
  shows "box_step = 48 \<and> box_step = int_of_float (3 / 2 * of_int FONT_SIZE)
     \<and> generate_box m output_directory pl w =
        (Inr (),
         w\<lparr>fs := (fs w)(output_directory @ [''box.png''] \<mapsto> File (Png
             \<lparr>img_w = CARD_W, img_h = CARD_W, img_bg = BG,
              img_ops = concat (map (\<lambda>y. map (\<lambda>x. Text (x + y) y (name pl) FG FONT ''la'' ''left'')
                      (filter (\<lambda>x. (x + CARD_W) mod (\<lceil>textlength m FONT (name pl)\<rceil> + box_step) = 0)
                         [- CARD_W..2 * CARD_W - 1]))
                    (filter (\<lambda>y. (y + CARD_W) mod box_step = 0) [- CARD_W..2 * CARD_W - 1]))\<rparr>))\<rparr>)"
proof -
  have w: "write_file (output_directory @ [''box.png'']) c (fs w)
             = Inr ((fs w)(output_directory @ [''box.png''] \<mapsto> File c))" for c
    using assms(2,3) by (simp add: write_file_def split: option.splits node.splits)
  have s: "box_step = int_of_float (3 / 2 * of_int FONT_SIZE)"
    by (simp add: box_step_def mult.commute)
  show ?thesis
    using s by (simp add: generate_box_def box_image_ops[OF assms(1)] w box_step_48)
qed

theorem generate_box_tiling_witness:
  "fst (generate_box \<lparr>textbbox = (\<lambda>f s. (0, 0, 0, 0)), textlength = (\<lambda>f s. 617 / 5)\<rparr>
         [] \<lparr>name = ''Mix'', tracks = []\<rparr> \<lparr>fs = Map.empty, log = []\<rparr>) = Inr ()"
proof -
  let ?m = "\<lparr>textbbox = (\<lambda>f s. (0, 0, 0, 0)), textlength = (\<lambda>f s. 617 / 5)\<rparr>"
  let ?pl = "\<lparr>name = ''Mix'', tracks = []\<rparr>"
  let ?w = "\<lparr>fs = Map.empty, log = []\<rparr>"
  have h1: "0 \<le> textlength ?m FONT (name ?pl)" by simp
  have h2: "lookup (fs ?w) [] = Some Dir" by (simp add: lookup_def)
  have h3: "lookup (fs ?w) ([] @ [''box.png'']) \<noteq> Some Dir" by (simp add: lookup_def)
  from generate_box_tiling [OF h1 h2 h3]
  have "\<exists>w'. generate_box ?m [] ?pl ?w = (Inr (), w')" by blast
  then show ?thesis by auto
qed

text \<open>
  C8. Two runs of the box generator with the same playlist name and the same measured
  width of that name write the same image, whatever the tracks, the other files, the log
  and the output directory of each run are: nothing else reaches the output.
\<close>

theorem generate_box_deterministic:
  assumes "name pl1 = name pl2"
    and "textlength m1 FONT (name pl1) = textlength m2 FONT (name pl2)"
    and "generate_box m1 out1 pl1 w1 = (Inr (), w1')"
    and "generate_box m2 out2 pl2 w2 = (Inr (), w2')"
  shows "fs w1' (out1 @ [''box.png'']) = fs w2' (out2 @ [''box.png''])
       \<and> (\<exists>im. fs w1' (out1 @ [''box.png'']) = Some (File (Png im)))"
proof -
  have b: "box_image m1 (name pl1) = box_image m2 (name pl2)"
    using assms(1,2) by (simp add: box_image_def)
  from assms(3) obtain im1 where 1: "box_image m1 (name pl1) = Inr im1"
      "fs w1' (out1 @ [''box.png'']) = Some (File (Png im1))"
    by (auto simp: generate_box_def write_file_def split: sum.splits option.splits node.splits)
  from assms(4) obtain im2 where 2: "box_image m2 (name pl2) = Inr im2"
      "fs w2' (out2 @ [''box.png'']) = Some (File (Png im2))"
    by (auto simp: generate_box_def write_file_def split: sum.splits option.splits node.splits)
  from b 1 2 show ?thesis by simp
qed

theorem generate_box_deterministic_witness:
  "fs (snd (generate_box \<lparr>textbbox = (\<lambda>f s. (0, 0, 0, 0)), textlength = (\<lambda>f s. 617 / 5)\<rparr>
              [] \<lparr>name = ''Mix'', tracks = []\<rparr> \<lparr>fs = Map.empty, log = []\<rparr>))
      [''box.png'']
   = fs (snd (generate_box \<lparr>textbbox = (\<lambda>f s. (1, 1, 2, 2)), textlength = (\<lambda>f s. 617 / 5)\<rparr>
              [''build''] \<lparr>name = ''Mix'', tracks = [Map.empty]\<rparr>
              \<lparr>fs = [[''build''] \<mapsto> Dir], log = [''earlier'']\<rparr>))
      [''build'', ''box.png'']"
proof -
  let ?m1 = "\<lparr>textbbox = (\<lambda>f s. (0, 0, 0, 0)), textlength = (\<lambda>f s. 617 / 5)\<rparr>"
  let ?m2 = "\<lparr>textbbox = (\<lambda>f s. (1, 1, 2, 2)), textlength = (\<lambda>f s. 617 / 5)\<rparr>"
  let ?pl1 = "\<lparr>name = ''Mix'', tracks = []\<rparr>"
  let ?pl2 = "\<lparr>name = ''Mix'', tracks = [Map.empty]\<rparr>"
  let ?w1 = "\<lparr>fs = Map.empty, log = []\<rparr>"
  let ?w2 = "\<lparr>fs = [[''build''] \<mapsto> Dir], log = [''earlier'']\<rparr>"
  have h1: "name ?pl1 = name ?pl2" by simp
  have h2: "textlength ?m1 FONT (name ?pl1) = textlength ?m2 FONT (name ?pl2)" by simp
  have "fst (generate_box ?m1 [] ?pl1 ?w1) = Inr ()"
    by (rule generate_box_succeeds) (simp_all add: lookup_def)
  then have h3: "generate_box ?m1 [] ?pl1 ?w1 = (Inr (), snd (generate_box ?m1 [] ?pl1 ?w1))"
    by (simp add: prod_eq_iff)
  have "fst (generate_box ?m2 [''build''] ?pl2 ?w2) = Inr ()"
    by (rule generate_box_succeeds) (simp_all add: lookup_def)
  then have h4: "generate_box ?m2 [''build''] ?pl2 ?w2
      = (Inr (), snd (generate_box ?m2 [''build''] ?pl2 ?w2))"
    by (simp add: prod_eq_iff)
  from generate_box_deterministic [OF h1 h2 h3 h4] show ?thesis by simp
qed

subsection \<open>Card generation\<close>

text \<open>
  C5. In a well-formed file system where the output directory exists and has neither a
  \<open>backs\<close> nor a \<open>fronts\<close> entry, for a playlist whose tracks all have the four keys:
  card generation succeeds; for every index \<open>i\<close> below the number of tracks the file
  \<open>backs/back_{i:05d}.png\<close> is the back image of track \<open>i\<close> and \<open>fronts/front_{i:05d}.png\<close>
  the front image of track \<open>i\<close>; these are all the entries of the two directories, and
  there are as many of each as there are tracks. The index is written in decimal, reads
  back as \<open>i\<close>, starts at 0 (\<open>00000\<close>) and has exactly five characters below 100000.
\<close>

theorem generate_cards_index_aligned:
  assumes "wf_fs (fs w)"
    and "lookup (fs w) out = Some Dir"
    and "fs w (out @ [''backs'']) = None"
    and "fs w (out @ [''fronts'']) = None"
    and "\<forall>t\<in>set (tracks pl). t ''url'' \<noteq> None \<and> t ''year'' \<noteq> None
                 \<and> t ''artists'' \<noteq> None \<and> t ''name'' \<noteq> None"
  shows "\<exists>w'. generate_cards m out pl w = (Inr (), w')
     \<and> (\<forall>i<length (tracks pl).
           fs w' (out @ [''backs'', back_name i])
             = Some (File (Png (back_image (the ((tracks pl ! i) ''url'')))))
         \<and> fs w' (out @ [''fronts'', front_name i])
             = Some (File (Png (front_image (the ((tracks pl ! i) ''year''))
                  (the ((tracks pl ! i) ''artists'')) (the ((tracks pl ! i) ''name''))))))
     \<and> {x. fs w' (out @ [''backs'', x]) \<noteq> None} = back_name ` {..<length (tracks pl)}
     \<and> {x. fs w' (out @ [''fronts'', x]) \<noteq> None} = front_name ` {..<length (tracks pl)}
     \<and> card (back_name ` {..<length (tracks pl)}) = length (tracks pl)
     \<and> card (front_name ` {..<length (tracks pl)}) = length (tracks pl)
     \<and> back_name 0 = ''back_00000.png'' \<and> front_name 0 = ''front_00000.png''
     \<and> (\<forall>i. back_name i = ''back_'' @ fmt_05d i @ ''.png''
            \<and> front_name i = ''front_'' @ fmt_05d i @ ''.png''
            \<and> dec (fmt_05d i) = i \<and> (i < 100000 \<longrightarrow> length (fmt_05d i) = 5))"
proof -
  let ?n = "length (tracks pl)"
  from generate_cards_ok[OF assms, of m] obtain w' where
    run: "generate_cards m out pl w = (Inr (), w')"
    and files: "\<forall>i<?n.
           fs w' (out @ [''backs'', back_name i])
             = Some (File (Png (back_image (the ((tracks pl ! i) ''url'')))))
         \<and> fs w' (out @ [''fronts'', front_name i])
             = Some (File (Png (front_image (the ((tracks pl ! i) ''year''))
                  (the ((tracks pl ! i) ''artists'')) (the ((tracks pl ! i) ''name'')))))"
    and nb: "\<forall>x. x \<notin> back_name ` {..<?n} \<longrightarrow> fs w' (out @ [''backs'', x]) = None"
    and nf: "\<forall>x. x \<notin> front_name ` {..<?n} \<longrightarrow> fs w' (out @ [''fronts'', x]) = None"
    by blast
  have sb: "{x. fs w' (out @ [''backs'', x]) \<noteq> None} = back_name ` {..<?n}"
  proof (rule set_eqI)
    fix x
    show "x \<in> {x. fs w' (out @ [''backs'', x]) \<noteq> None} \<longleftrightarrow> x \<in> back_name ` {..<?n}"
      using files nb by (cases "x \<in> back_name ` {..<?n}") auto
  qed
  have sf: "{x. fs w' (out @ [''fronts'', x]) \<noteq> None} = front_name ` {..<?n}"
  proof (rule set_eqI)
    fix x
    show "x \<in> {x. fs w' (out @ [''fronts'', x]) \<noteq> None} \<longleftrightarrow> x \<in> front_name ` {..<?n}"
      using files nf by (cases "x \<in> front_name ` {..<?n}") auto
  qed
  have cb: "card (back_name ` {..<?n}) = ?n"
    by (simp add: card_image inj_on_def back_name_inj)
  have cf: "card (front_name ` {..<?n}) = ?n"
    by (simp add: card_image inj_on_def front_name_inj)
  have fm: "\<forall>i. back_name i = ''back_'' @ fmt_05d i @ ''.png''
            \<and> front_name i = ''front_'' @ fmt_05d i @ ''.png''
            \<and> dec (fmt_05d i) = i \<and> (i < 100000 \<longrightarrow> length (fmt_05d i) = 5)"
    by (simp add: back_name_def front_name_def dec_fmt_05d length_fmt_05d)
  from run files sb sf cb cf fm name_zero show ?thesis by blast
qed

theorem generate_cards_index_aligned_witness:
  "fst (generate_cards \<lparr>textbbox = (\<lambda>f s. (0, 0, 0, 0)), textlength = (\<lambda>f s. 0)\<rparr> []
         \<lparr>name = ''Mix'',
          tracks = [[''url'' \<mapsto> ''u0'', ''year'' \<mapsto> ''1999'', ''artists'' \<mapsto> ''A'', ''name'' \<mapsto> ''S''],
                    [''url'' \<mapsto> ''u1'', ''year'' \<mapsto> ''2001'', ''artists'' \<mapsto> ''B'', ''name'' \<mapsto> ''T'']]\<rparr>
         \<lparr>fs = Map.empty, log = []\<rparr>) = Inr ()"
proof -
  let ?m = "\<lparr>textbbox = (\<lambda>f s. (0, 0, 0, 0)), textlength = (\<lambda>f s. 0)\<rparr>"
  let ?pl = "\<lparr>name = ''Mix'',
          tracks = [[''url'' \<mapsto> ''u0'', ''year'' \<mapsto> ''1999'', ''artists'' \<mapsto> ''A'', ''name'' \<mapsto> ''S''],
                    [''url'' \<mapsto> ''u1'', ''year'' \<mapsto> ''2001'', ''artists'' \<mapsto> ''B'', ''name'' \<mapsto> ''T'']]\<rparr>"
  let ?w = "\<lparr>fs = Map.empty, log = []\<rparr>"
  have h1: "wf_fs (fs ?w)" by (simp add: wf_fs_def)
  have h2: "lookup (fs ?w) [] = Some Dir" by (simp add: lookup_def)
  have h3: "fs ?w ([] @ [''backs'']) = None" by simp
  have h4: "fs ?w ([] @ [''fronts'']) = None" by simp
  have h5: "\<forall>t\<in>set (tracks ?pl). t ''url'' \<noteq> None \<and> t ''year'' \<noteq> None
                 \<and> t ''artists'' \<noteq> None \<and> t ''name'' \<noteq> None" by simp
  from generate_cards_index_aligned [OF h1 h2 h3 h4 h5, of ?m]
  obtain w' where "generate_cards ?m [] ?pl ?w = (Inr (), w')" by blast
  then show ?thesis by simp
qed

text \<open>
  C2, as stated, fails: with \<open>fronts\<close> present and \<open>backs\<close> absent, card generation creates
  \<open>backs\<close> and saves every back image before the creation of \<open>fronts\<close> raises
  FileExistsError.
\<close>

theorem generate_cards_fronts_exists_counterexample:
  "generate_cards \<lparr>textbbox = (\<lambda>f s. (0, 0, 0, 0)), textlength = (\<lambda>f s. 0)\<rparr> [''build'']
      \<lparr>name = ''Mix'', tracks = [[''url'' \<mapsto> ''u0'', ''year'' \<mapsto> ''1999'',
                                    ''artists'' \<mapsto> ''A'', ''name'' \<mapsto> ''S'']]\<rparr>
      \<lparr>fs = [[''build''] \<mapsto> Dir, [''build'', ''fronts''] \<mapsto> Dir], log = []\<rparr>
   = (Inl FileExistsError,
      \<lparr>fs = [[''build''] \<mapsto> Dir, [''build'', ''fronts''] \<mapsto> Dir,
             [''build'', ''backs''] \<mapsto> Dir,
             [''build'', ''backs'', ''back_00000.png''] \<mapsto> File (Png (back_image ''u0''))],
       log = []\<rparr>)"
  by (simp add: generate_cards_def makedirs.simps mkdir_def lookup_def getitem_def
      write_file_def name_zero)

text \<open>
  C2, amended. In a well-formed file system: if \<open>backs\<close> already exists, card generation
  fails with FileExistsError and changes nothing; if \<open>fronts\<close> already exists, card
  generation fails, logs nothing and leaves \<open>fronts\<close> and everything below it as it was
  (no front image is written). So neither pre-existing directory is ever written into.
\<close>

theorem generate_cards_existing_directory:
  assumes "wf_fs (fs w)"
  shows "(fs w (out @ [''backs'']) \<noteq> None \<longrightarrow>
            generate_cards m out pl w = (Inl FileExistsError, w))
       \<and> (fs w (out @ [''fronts'']) \<noteq> None \<longrightarrow>
            (\<exists>e w'. generate_cards m out pl w = (Inl e, w') \<and> log w' = log w
               \<and> (\<forall>q. fs w' (out @ ''fronts'' # q) = fs w (out @ ''fronts'' # q))))"
proof (intro conjI impI)
  let ?f = "fs w"
  let ?bd = "out @ [''backs'']"
  let ?fd = "out @ [''fronts'']"
  {
    assume ex: "?f ?bd \<noteq> None"
    have out: "lookup ?f out = Some Dir" using assms ex by (rule wf_fs_parent)
    have "makedirs ?bd ?f = Inl FileExistsError"
      using out ex by (simp add: makedirs_child mkdir_exists lookup_def)
    then show "generate_cards m out pl w = (Inl FileExistsError, w)"
      by (simp add: generate_cards_def)
  }
  {
    assume ex: "?f ?fd \<noteq> None"
    have out: "lookup ?f out = Some Dir" using assms ex by (rule wf_fs_parent)
    have mk: "makedirs ?bd ?f = mkdir ?bd ?f" using out by (rule makedirs_child)
    show "\<exists>e w'. generate_cards m out pl w = (Inl e, w') \<and> log w' = log w
               \<and> (\<forall>q. fs w' (out @ ''fronts'' # q) = ?f (out @ ''fronts'' # q))"
    proof (cases "mkdir ?bd ?f")
      case (Inl e)
      then have "generate_cards m out pl w = (Inl e, w)"
        by (simp add: generate_cards_def mk)
      then show ?thesis by simp
    next
      case (Inr f1)
      then have f1: "f1 = ?f(?bd \<mapsto> Dir)" by (rule mkdir_result)
      obtain r f2 where run: "backs_loop ?bd (enumerate 0 (tracks pl)) f1 = (r, f2)"
        by (cases "backs_loop ?bd (enumerate 0 (tracks pl)) f1")
      have frame: "f2 p = f1 p" if "\<forall>x. p \<noteq> ?bd @ [x]" for p
        using backs_loop_frame[OF run, of p] that by blast
      have keep: "f2 (out @ ''fronts'' # q) = ?f (out @ ''fronts'' # q)" for q
      proof -
        have "f2 (out @ ''fronts'' # q) = f1 (out @ ''fronts'' # q)"
          by (rule frame) simp
        then show ?thesis by (simp add: f1)
      qed
      show ?thesis
      proof (cases r)
        case (Inl e)
        then have "generate_cards m out pl w = (Inl e, w\<lparr>fs := f2\<rparr>)"
          using Inr run by (simp add: generate_cards_def mk)
        then show ?thesis using keep by simp
      next
        case inr: (Inr u)
        have "f2 out = f1 out" by (rule frame) simp
        then have out2: "lookup f2 out = Some Dir"
          using out by (auto simp: f1 lookup_def split: if_splits)
        have "f2 ?fd \<noteq> None" using keep[of "[]"] ex by simp
        then have "makedirs ?fd f2 = Inl FileExistsError"
          using out2 by (simp add: makedirs_child mkdir_exists lookup_def)
        then have "generate_cards m out pl w = (Inl FileExistsError, w\<lparr>fs := f2\<rparr>)"
          using Inr run inr by (simp add: generate_cards_def mk)
        then show ?thesis using keep by simp
      qed
    qed
  }
qed

theorem generate_cards_existing_directory_witness:
  "generate_cards \<lparr>textbbox = (\<lambda>f s. (0, 0, 0, 0)), textlength = (\<lambda>f s. 0)\<rparr> [''build'']
      \<lparr>name = ''Mix'', tracks = [[''url'' \<mapsto> ''u0'']]\<rparr>
      \<lparr>fs = [[''build''] \<mapsto> Dir, [''build'', ''backs''] \<mapsto> Dir], log = []\<rparr>
   = (Inl FileExistsError,
      \<lparr>fs = [[''build''] \<mapsto> Dir, [''build'', ''backs''] \<mapsto> Dir], log = []\<rparr>)
   \<and> (\<exists>e w'. generate_cards \<lparr>textbbox = (\<lambda>f s. (0, 0, 0, 0)), textlength = (\<lambda>f s. 0)\<rparr>
          [''build''] \<lparr>name = ''Mix'', tracks = [[''url'' \<mapsto> ''u0'']]\<rparr>
          \<lparr>fs = [[''build''] \<mapsto> Dir, [''build'', ''fronts''] \<mapsto> Dir], log = []\<rparr> = (Inl e, w')
        \<and> fs w' [''build'', ''fronts''] = Some Dir)"
proof -
  let ?m = "\<lparr>textbbox = (\<lambda>f s. (0, 0, 0, 0)), textlength = (\<lambda>f s. 0)\<rparr>"
  let ?pl = "\<lparr>name = ''Mix'', tracks = [[''url'' \<mapsto> ''u0'']]\<rparr>"
  let ?w1 = "\<lparr>fs = [[''build''] \<mapsto> Dir, [''build'', ''backs''] \<mapsto> Dir], log = []\<rparr>"
  let ?w2 = "\<lparr>fs = [[''build''] \<mapsto> Dir, [''build'', ''fronts''] \<mapsto> Dir], log = []\<rparr>"
  have h1: "wf_fs (fs ?w1)" by (auto simp: wf_fs_def lookup_def split: if_splits)
  have h2: "wf_fs (fs ?w2)" by (auto simp: wf_fs_def lookup_def split: if_splits)
  have e1: "fs ?w1 ([''build''] @ [''backs'']) \<noteq> None" by simp
  have e2: "fs ?w2 ([''build''] @ [''fronts'']) \<noteq> None" by simp
  from generate_cards_existing_directory [OF h1, of "[''build'']" ?m ?pl] e1
  have a: "generate_cards ?m [''build''] ?pl ?w1 = (Inl FileExistsError, ?w1)" by blast
  from generate_cards_existing_directory [OF h2, of "[''build'']" ?m ?pl] e2
  obtain e w' where b: "generate_cards ?m [''build''] ?pl ?w2 = (Inl e, w')"
    and c: "\<forall>q. fs w' ([''build''] @ ''fronts'' # q) = fs ?w2 ([''build''] @ ''fronts'' # q)"
    by blast
  from c have "fs w' ([''build''] @ ''fronts'' # []) = fs ?w2 ([''build''] @ ''fronts'' # [])"
    by (rule spec)
  then have "fs w' [''build'', ''fronts''] = Some Dir" by simp
  with a b show ?thesis by blast
qed

subsection \<open>Histogram bins\<close>

text \<open>
  C1, as stated, fails: the minimum and the maximum are taken over the year strings, not
  over their values. For the years 2, 10 and 30, which all parse, the string minimum is
  \<open>10\<close>: there are 21 bins labelled 10 to 30 instead of 29 labelled 2 to 30, and the
  year 2 is counted at index \<open>2 - 10 = -8\<close>, that is in the bin labelled 23.
\<close>

theorem histogram_string_min_counterexample:
  "py_int ''2'' = Inr 2 \<and> py_int ''10'' = Inr 10 \<and> py_int ''30'' = Inr 30
   \<and> histogram_bins [''2'', ''10'', ''30'']
       = Inr ([10, 11, 12, 13, 14, 15, 16, 17, 18, 19, 20, 21, 22, 23, 24, 25, 26, 27, 28, 29, 30],
              [1, 0, 0, 0, 0, 0, 0, 0, 0, 0, 0, 0, 0, 1, 0, 0, 0, 0, 0, 0, 1])"
  by (simp add: histogram_bins_def py_int_eval py_range1_def list_incr_def)
     (simp add: upt_rec)

text \<open>
  C1, amended. For a playlist with at least one track whose year fields are strings of
  decimal digits, all of the same length (at most 4300), written to an existing output
  directory: every year parses; with \<open>minYear\<close> and \<open>maxYear\<close> the least and the greatest
  year, \<open>hist.png\<close> holds the bars labelled \<open>minYear, ..., maxYear\<close>, one per year of the
  range, with \<open>maxYear - minYear + 1\<close> counts; the count at index \<open>k\<close> is the number of
  tracks with \<open>year - minYear = k\<close>; the counts add up to the number of tracks.
\<close>

theorem generate_histogram_bins:
  assumes "tracks pl \<noteq> []"
    and "\<forall>t\<in>set (tracks pl). t ''year'' \<noteq> None"
    and "year_strings n (map (\<lambda>t. the (t ''year'')) (tracks pl))"
    and "0 < n" and "n \<le> 4300"
    and "lookup (fs w) output_directory = Some Dir"
    and "lookup (fs w) (output_directory @ [''hist.png'']) \<noteq> Some Dir"
  shows "let years = map (\<lambda>t. the (t ''year'')) (tracks pl);
             minYear = int (Min (dec ` set years));
             maxYear = int (Max (dec ` set years))
         in (\<forall>y\<in>set years. py_int y = Inr (int (dec y)))
          \<and> (\<exists>counts.
                generate_histogram output_directory pl w
                  = (Inr (),
                     w\<lparr>fs := (fs w)(output_directory @ [''hist.png''] \<mapsto> File (Figure
                          \<lparr>bar_labels = [minYear..maxYear], bar_counts = counts,
                           title = name pl\<rparr>))\<rparr>)
              \<and> length counts = nat (maxYear - minYear + 1)
              \<and> length [minYear..maxYear] = length counts
              \<and> (\<forall>k<length counts. counts ! k
                    = int (length (filter (\<lambda>y. int (dec y) - minYear = int k) years)))
              \<and> sum_list counts = int (length (tracks pl)))"
proof -
  let ?years = "map (\<lambda>t. the (t ''year'')) (tracks pl)"
  let ?a = "int (Min (dec ` set ?years))"
  let ?b = "int (Max (dec ` set ?years))"
  have ne: "?years \<noteq> []" using assms(1) by simp
  have gi: "getitems ''year'' (tracks pl) = Inr ?years" using assms(2) by (rule getitems_all)
  have p: "\<forall>y\<in>set ?years. py_int y = Inr (int (dec y))"
    using py_int_year[OF assms(3,4,5)] by blast
  from histogram_bins_years[OF assms(3) ne assms(4,5)] obtain counts where
    hb: "histogram_bins ?years = Inr ([?a..?b], counts)"
    and len: "length counts = nat (?b - ?a + 1)"
    and nth: "\<forall>k<length counts. counts ! k
               = int (length (filter (\<lambda>y. int (dec y) = ?a + int k) ?years))"
    and sum: "sum_list counts = int (length ?years)"
    by blast
  have wr: "write_file (output_directory @ [''hist.png'']) c (fs w)
             = Inr ((fs w)(output_directory @ [''hist.png''] \<mapsto> File c))" for c
    using assms(6,7) by (simp add: write_file_ok)
  have run: "generate_histogram output_directory pl w
                  = (Inr (),
                     w\<lparr>fs := (fs w)(output_directory @ [''hist.png''] \<mapsto> File (Figure
                          \<lparr>bar_labels = [?a..?b], bar_counts = counts, title = name pl\<rparr>))\<rparr>)"
    by (simp add: generate_histogram_def gi hb wr)
  have ll: "length [?a..?b] = length counts" using len by simp
  have eqv: "(int (dec y) - ?a = int k) = (int (dec y) = ?a + int k)" for y k by linarith
  have nth': "\<forall>k<length counts. counts ! k
               = int (length (filter (\<lambda>y. int (dec y) - ?a = int k) ?years))"
    using nth by (simp only: eqv)
  have sum': "sum_list counts = int (length (tracks pl))" using sum by simp
  from p run len ll nth' sum' show ?thesis unfolding Let_def by blast
qed

theorem generate_histogram_bins_witness:
  "fst (generate_histogram []
         \<lparr>name = ''Test'',
          tracks = [[''year'' \<mapsto> ''1999''], [''year'' \<mapsto> ''2001''], [''year'' \<mapsto> ''1999'']]\<rparr>
         \<lparr>fs = Map.empty, log = []\<rparr>) = Inr ()
   \<and> histogram_bins [''1999'', ''2001'', ''1999''] = Inr ([1999, 2000, 2001], [2, 0, 1])"
proof -
  let ?pl = "\<lparr>name = ''Test'',
          tracks = [[''year'' \<mapsto> ''1999''], [''year'' \<mapsto> ''2001''], [''year'' \<mapsto> ''1999'']]\<rparr>"
  let ?w = "\<lparr>fs = Map.empty, log = []\<rparr>"
  have h1: "tracks ?pl \<noteq> []" by simp
  have h2: "\<forall>t\<in>set (tracks ?pl). t ''year'' \<noteq> None" by simp
  have h3: "year_strings 4 (map (\<lambda>t. the (t ''year'')) (tracks ?pl))"
    by (simp add: year_strings_def is_digit_def)
  have h4: "(0::nat) < 4" by simp
  have h5: "(4::nat) \<le> 4300" by simp
  have h6: "lookup (fs ?w) [] = Some Dir" by (simp add: lookup_def)
  have h7: "lookup (fs ?w) ([] @ [''hist.png'']) \<noteq> Some Dir" by (simp add: lookup_def)
  from generate_histogram_bins [OF h1 h2 h3 h4 h5 h6 h7]
  obtain w' where "generate_histogram [] ?pl ?w = (Inr (), w')"
    unfolding Let_def by blast
  then have run: "fst (generate_histogram [] ?pl ?w) = Inr ()" by simp
  have "histogram_bins [''1999'', ''2001'', ''1999''] = Inr ([1999, 2000, 2001], [2, 0, 1])"
    by (simp add: histogram_bins_def py_int_eval py_range1_def list_incr_def upt_rec)
  with run show ?thesis by blast
qed

text \<open>
  C10, as stated, fails: for the years 5 and 10, which both parse, the string minimum is
  \<open>10\<close> and the string maximum \<open>5\<close>, the list of counts is empty and the increment at
  index \<open>5 - 10\<close> raises IndexError.
\<close>

theorem histogram_index_counterexample:
  "py_int ''5'' = Inr 5 \<and> py_int ''10'' = Inr 10
   \<and> histogram_bins [''5'', ''10''] = Inl IndexError"
  by (simp add: histogram_bins_def py_int_eval py_range1_def list_incr_def)

text \<open>
  C10, amended. For a non-empty list of year strings of decimal digits, all of the same
  length (at most 4300): \<open>a\<close> and \<open>b\<close> are computed without error, every year parses, and
  its index \<open>int(year) - a\<close> lies in \<open>0 .. b - a\<close>, below the length of the list of
  counts; the bins are computed without any error.
\<close>

theorem histogram_index_in_bounds:
  assumes "year_strings n years" and "years \<noteq> []" and "0 < n" and "n \<le> 4300"
  shows "\<exists>lo hi a b. py_min years = Inr lo \<and> py_int lo = Inr a
          \<and> py_max years = Inr hi \<and> py_int hi = Inr b
          \<and> (\<forall>y\<in>set years. \<exists>v. py_int y = Inr v \<and> 0 \<le> v - a \<and> v - a \<le> b - a
                \<and> v - a < int (length (map (\<lambda>_. 0::int) (py_range1 (b - a + 1)))))
          \<and> (\<exists>r. histogram_bins years = Inr r)"
proof -
  let ?a = "int (Min (dec ` set years))"
  let ?b = "int (Max (dec ` set years))"
  from histogram_bins_years[OF assms] obtain lo hi counts where
    lo: "py_min years = Inr lo" "py_int lo = Inr ?a"
    and hi: "py_max years = Inr hi" "py_int hi = Inr ?b"
    and hb: "histogram_bins years = Inr ([?a..?b], counts)"
    by blast
  have idx: "\<forall>y\<in>set years. \<exists>v. py_int y = Inr v \<and> 0 \<le> v - ?a \<and> v - ?a \<le> ?b - ?a
                \<and> v - ?a < int (length (map (\<lambda>_. 0::int) (py_range1 (?b - ?a + 1))))"
  proof
    fix y assume y: "y \<in> set years"
    have 1: "py_int y = Inr (int (dec y))" using assms(1,3,4) y by (rule py_int_year)
    have "Min (dec ` set years) \<le> dec y" using y by simp
    then have 2: "0 \<le> int (dec y) - ?a" by simp
    have "dec y \<le> Max (dec ` set years)" using y by simp
    then have 3: "int (dec y) - ?a \<le> ?b - ?a" by simp
    have "int (length (map (\<lambda>_. 0::int) (py_range1 (?b - ?a + 1)))) = int (nat (?b - ?a + 1))"
      by (simp add: py_range1_def)
    also have "\<dots> = ?b - ?a + 1" using 2 3 by linarith
    finally have 4: "int (dec y) - ?a < int (length (map (\<lambda>_. 0::int) (py_range1 (?b - ?a + 1))))"
      using 3 by linarith
    from 1 2 3 4 show "\<exists>v. py_int y = Inr v \<and> 0 \<le> v - ?a \<and> v - ?a \<le> ?b - ?a
                \<and> v - ?a < int (length (map (\<lambda>_. 0::int) (py_range1 (?b - ?a + 1))))"
      by blast
  qed
  from lo hi idx hb show ?thesis by blast
qed

theorem histogram_index_in_bounds_witness:
  "\<exists>r. histogram_bins [''1999'', ''2001'', ''1999''] = Inr r"
proof -
  have h1: "year_strings 4 [''1999'', ''2001'', ''1999'']"
    by (simp add: year_strings_def is_digit_def)
  have h2: "[''1999'', ''2001'', ''1999''] \<noteq> []" by simp
  have h3: "(0::nat) < 4" by simp
  have h4: "(4::nat) \<le> 4300" by simp
  from histogram_index_in_bounds [OF h1 h2 h3 h4] show ?thesis by blast
qed

end
